theory Spec2Isabelle
  imports Main
begin

text \<open>
  A development about the chunk scheduler of the library: the task controller with its
  pause, resume and cancel, the retry loop around the processing of one chunk, the
  loop that keeps a bounded number of chunks in flight, and the two functions that
  collect the chunks and hash them.
\<close>

section \<open>The host: promises, abort signals, timeouts\<close>

text \<open>
  The scheduler runs on one JavaScript thread. What it shares with the host is kept in
  three stores, each addressed by the position at which an object was allocated:
  \<^item> \<open>promises\<close>: for every promise made with \<open>new Promise\<close> inside the task
    controller, whether its \<open>resolve\<close> has been called. Calling \<open>resolve\<close> again
    changes nothing, as in the language.
  \<^item> \<open>signals\<close>: for every \<open>AbortSignal\<close>, whether it has been aborted.
  \<^item> \<open>timeouts\<close>: for every \<open>setTimeout\<close> call, the time at which it is due, the
    promise its callback resolves, and whether it is still armed.
  \<open>now\<close> is the clock in milliseconds.
\<close>

record host =
  now :: nat
  promises :: "bool list"
  signals :: "bool list"
  timeouts :: "(nat \<times> nat \<times> bool) list"

definition new_Promise :: "'a host_scheme \<Rightarrow> nat \<times> 'a host_scheme" where
  "new_Promise h = (length (promises h), h\<lparr>promises := promises h @ [False]\<rparr>)"

definition resolve :: "nat \<Rightarrow> 'a host_scheme \<Rightarrow> 'a host_scheme" where
  "resolve p h = h\<lparr>promises := (promises h)[p := True]\<rparr>"

definition settled :: "'a host_scheme \<Rightarrow> nat \<Rightarrow> bool" where
  "settled h p = (p < length (promises h) \<and> promises h ! p)"

definition setTimeout :: "nat \<Rightarrow> nat \<Rightarrow> 'a host_scheme \<Rightarrow> nat \<times> 'a host_scheme" where
  "setTimeout p ms h =
     (length (timeouts h), h\<lparr>timeouts := timeouts h @ [(now h + ms, p, True)]\<rparr>)"

definition clearTimeout :: "nat \<Rightarrow> 'a host_scheme \<Rightarrow> 'a host_scheme" where
  "clearTimeout t h =
     (if t < length (timeouts h)
      then h\<lparr>timeouts := (timeouts h)[t := (fst (timeouts h ! t), fst (snd (timeouts h ! t)), False)]\<rparr>
      else h)"

definition aborted :: "'a host_scheme \<Rightarrow> nat \<Rightarrow> bool" where
  "aborted h s = (s < length (signals h) \<and> signals h ! s)"

text \<open>A timeout fires once, not before it is due, and only while armed; its callback
  is the \<open>resolve\<close> of the promise that \<open>delay\<close> made.\<close>

definition fire :: "nat \<Rightarrow> 'a host_scheme \<Rightarrow> 'a host_scheme" where
  "fire t h =
     (if t < length (timeouts h) then
        (case timeouts h ! t of (due, p, armed) \<Rightarrow>
           if armed \<and> due \<le> now h then resolve p (clearTimeout t h) else h)
      else h)"

definition elapse :: "nat \<Rightarrow> 'a host_scheme \<Rightarrow> 'a host_scheme" where
  "elapse d h = h\<lparr>now := now h + d\<rparr>"

section \<open>TaskController\<close>

datatype error = TaskCancelled | Thrown nat

text \<open>
  \<open>TaskCancelled\<close> is the \<open>Error('Task cancelled')\<close> of \<open>checkCancelled\<close>;
  \<open>Thrown n\<close> is any value thrown by code outside the library (a chunk source, the
  processor, the progress callback), told apart by \<open>n\<close>.

  The class extends the host record, so that its methods act on the stores directly.
  \<open>pauseResolvers\<close> and \<open>timers\<close> hold promise positions in place of the
  \<open>resolve\<close> closures; \<open>abortController\<close> is the position of the current signal.
\<close>

record TaskController = host +
  paused :: bool
  cancelled :: bool
  pauseResolvers :: "nat list"
  timers :: "(nat \<times> nat) list"
  abortController :: nat

definition signal :: "'a TaskController_scheme \<Rightarrow> nat" where
  "signal c = abortController c"

definition checkCancelled :: "'a TaskController_scheme \<Rightarrow> error + unit" where
  "checkCancelled c = (if cancelled c then Inl TaskCancelled else Inr ())"

text \<open>\<open>waitIfPaused\<close> returns the promise the caller is suspended on, \<open>None\<close> when
  it returns at once.\<close>

definition waitIfPaused :: "'a TaskController_scheme \<Rightarrow> nat option \<times> 'a TaskController_scheme" where
  "waitIfPaused c =
     (if \<not> paused c then (None, c)
      else (case new_Promise c of (p, c') \<Rightarrow>
              (Some p, c'\<lparr>pauseResolvers := pauseResolvers c' @ [p]\<rparr>)))"

definition delay :: "nat \<Rightarrow> 'a TaskController_scheme \<Rightarrow> nat \<times> 'a TaskController_scheme" where
  "delay ms c =
     (case new_Promise c of (p, c1) \<Rightarrow>
        (case setTimeout p ms c1 of (timer, c2) \<Rightarrow>
           (p, c2\<lparr>timers := timers c2 @ [(timer, p)]\<rparr>)))"

definition clearTimers :: "'a TaskController_scheme \<Rightarrow> 'a TaskController_scheme" where
  "clearTimers c =
     fold (\<lambda>(timer, p) h. resolve p (clearTimeout timer h)) (timers c) (c\<lparr>timers := []\<rparr>)"

definition abort :: "'a TaskController_scheme \<Rightarrow> 'a TaskController_scheme" where
  "abort c = c\<lparr>signals := (signals c)[abortController c := True]\<rparr>"

definition new_AbortController :: "'a TaskController_scheme \<Rightarrow> 'a TaskController_scheme" where
  "new_AbortController c =
     c\<lparr>signals := signals c @ [False], abortController := length (signals c)\<rparr>"

definition release :: "'a TaskController_scheme \<Rightarrow> 'a TaskController_scheme" where
  "release c = fold resolve (pauseResolvers c) (c\<lparr>pauseResolvers := []\<rparr>)"

definition pause :: "'a TaskController_scheme \<Rightarrow> 'a TaskController_scheme" where
  "pause c = clearTimers (abort (c\<lparr>paused := True\<rparr>))"

definition resume :: "'a TaskController_scheme \<Rightarrow> 'a TaskController_scheme" where
  "resume c =
     (if \<not> paused c then c
      else release (clearTimers (new_AbortController (c\<lparr>paused := False\<rparr>))))"

definition cancel :: "'a TaskController_scheme \<Rightarrow> 'a TaskController_scheme" where
  "cancel c =
     (let c1 = clearTimers (abort (c\<lparr>cancelled := True\<rparr>))
      in if paused c1 then release (c1\<lparr>paused := False\<rparr>) else c1)"

definition cleanup :: "'a TaskController_scheme \<Rightarrow> 'a TaskController_scheme" where
  "cleanup c = clearTimers (c\<lparr>paused := False, pauseResolvers := []\<rparr>)"

definition new_TaskController :: TaskController where
  "new_TaskController =
     \<lparr>now = 0, promises = [], signals = [False], timeouts = [],
      paused = False, cancelled = False, pauseResolvers = [], timers = [],
      abortController = 0\<rparr>"

section \<open>executeWithRetry and processChunks\<close>

record Chunk =
  blob :: "nat list"
  hash :: string
  index :: nat
  start :: nat
  end_offset :: nat

text \<open>
  Every \<open>await\<close> of the source is a point where the async function is suspended and
  other code may run. A per-chunk task (\<open>processChunk\<close> with the \<open>executeWithRetry\<close>
  call inside it) is suspended at one of four places, or has settled:
  \<^item> \<open>AwaitChunk\<close>: at \<open>await chunkPromise\<close>;
  \<^item> \<open>AwaitPaused p\<close>: at \<open>await controller.waitIfPaused()\<close>, on the promise \<open>p\<close>
    pushed to \<open>pauseResolvers\<close>, or on nothing when the controller was not paused;
  \<^item> \<open>AwaitProcessor s\<close>: at \<open>await processor(chunk, controller.signal)\<close>, the
    processor having been handed the signal \<open>s\<close>;
  \<^item> \<open>AwaitDelay p\<close>: at \<open>await controller.delay(delay)\<close>.
  \<open>retry\<close> is the local variable of \<open>executeWithRetry\<close>.
\<close>

datatype pc =
  AwaitChunk | AwaitPaused "nat option" | AwaitProcessor nat | AwaitDelay nat
  | Fulfilled | Rejected error

record task =
  at :: pc
  retry :: nat

text \<open>The async function behind \<open>mainPromise\<close> is suspended at
  \<open>await Promise.race(executing)\<close> or at \<open>await Promise.all(executing)\<close>, with the
  outcome of that promise once it has one, or has settled.\<close>

datatype main_pc =
  AwaitRace "(error + unit) option" | AwaitAll "(error + unit) option"
  | Settled "error + unit"

text \<open>What a run does to the outside is recorded in \<open>trace\<close>, which the code does not
  have: a source handed to \<open>processChunk\<close>, the processor called for a chunk with a
  signal, \<open>completed++\<close> done for a chunk, \<open>onProgress\<close> called, \<open>delay\<close> called.\<close>

datatype obs =
  Submitted nat | Invoked nat nat | Counted nat | Progress nat nat | Slept nat nat

text \<open>
  The closure of \<open>processChunks\<close>. \<open>chunkPromises\<close> holds for each source whether it
  is pending (\<open>None\<close>), rejected or fulfilled; \<open>onProgress\<close> says whether the option
  was given; \<open>executing\<close> is the \<open>Set\<close> in insertion order, a task being named by the
  position of its source; \<open>tasks\<close> are the \<open>processChunk\<close> calls made so far, so that
  the \<open>for\<close> loop stands at source \<open>length tasks\<close>. \<open>concurrency\<close> is a natural number:
  in \<open>executing.size >= concurrency\<close> a number below one behaves as \<open>0\<close> does, and a
  fraction as the next whole number.
\<close>

record scheduler = TaskController +
  chunkPromises :: "(error + Chunk) option list"
  concurrency :: nat
  onProgress :: bool
  executing :: "nat list"
  completed :: nat
  tasks :: "task list"
  mainPromise :: main_pc
  trace :: "obs list"

definition source :: "scheduler \<Rightarrow> nat \<Rightarrow> (error + Chunk) option" where
  "source w i = (if i < length (chunkPromises w) then chunkPromises w ! i else None)"

definition set_at :: "nat \<Rightarrow> pc \<Rightarrow> scheduler \<Rightarrow> scheduler" where
  "set_at i p w = w\<lparr>tasks := (tasks w)[i := (tasks w ! i)\<lparr>at := p\<rparr>]\<rparr>"

text \<open>
  A task settles: its \<open>finally\<close> callback deletes it from \<open>executing\<close>, and the promise
  that \<open>executing\<close> held settles the same way. \<open>Promise.race\<close> takes the first of its
  members to settle; \<open>Promise.all\<close> rejects with the first rejection and fulfils when
  its last member has fulfilled. Both were called on \<open>executing\<close>, and nothing is
  added to the set while \<open>mainPromise\<close> is suspended.
\<close>

definition finish :: "nat \<Rightarrow> error + unit \<Rightarrow> scheduler \<Rightarrow> scheduler" where
  "finish i r w =
     (let w1 = set_at i (case r of Inl e \<Rightarrow> Rejected e | Inr _ \<Rightarrow> Fulfilled) w;
          w2 = w1\<lparr>executing := removeAll i (executing w1)\<rparr>
      in if i \<notin> set (executing w) then w2
         else (case mainPromise w2 of
                 AwaitRace None \<Rightarrow> w2\<lparr>mainPromise := AwaitRace (Some r)\<rparr>
               | AwaitAll None \<Rightarrow>
                   (case r of
                      Inl e \<Rightarrow> w2\<lparr>mainPromise := AwaitAll (Some (Inl e))\<rparr>
                    | Inr _ \<Rightarrow> if executing w2 = []
                               then w2\<lparr>mainPromise := AwaitAll (Some (Inr ()))\<rparr> else w2)
               | _ \<Rightarrow> w2))"

subsection \<open>executeWithRetry\<close>

definition retryDelay :: "nat \<Rightarrow> nat" where
  "retryDelay n = min (1000 * n) 5000"

text \<open>The top of the \<open>while\<close> loop, up to \<open>await controller.waitIfPaused()\<close>.\<close>

definition attempt :: "nat \<Rightarrow> scheduler \<Rightarrow> scheduler" where
  "attempt i w =
     (case checkCancelled w of
        Inl e \<Rightarrow> finish i (Inl e) w
      | Inr _ \<Rightarrow> (case waitIfPaused w of (p, w') \<Rightarrow> set_at i (AwaitPaused p) w'))"

text \<open>From the second \<open>checkCancelled\<close> to \<open>await processor(chunk, controller.signal)\<close>
  inside \<open>fn\<close>.\<close>

definition invoke :: "nat \<Rightarrow> scheduler \<Rightarrow> scheduler" where
  "invoke i w =
     (case checkCancelled w of
        Inl e \<Rightarrow> finish i (Inl e) w
      | Inr _ \<Rightarrow> set_at i (AwaitProcessor (signal w))
                  (w\<lparr>trace := trace w @ [Invoked i (signal w)]\<rparr>))"

text \<open>The \<open>catch\<close> block: \<open>Math.min(1000 * retry++, 5000)\<close>, then
  \<open>await controller.delay(delay)\<close>. The value caught is not bound.\<close>

definition backoff :: "nat \<Rightarrow> scheduler \<Rightarrow> scheduler" where
  "backoff i w =
     (let n = retry (tasks w ! i);
          w1 = w\<lparr>tasks := (tasks w)[i := (tasks w ! i)\<lparr>retry := n + 1\<rparr>]\<rparr>
      in (case delay (retryDelay n) w1 of
            (p, w2) \<Rightarrow> set_at i (AwaitDelay p)
                        (w2\<lparr>trace := trace w2 @ [Slept i (retryDelay n)]\<rparr>)))"

text \<open>The rest of \<open>fn\<close> once the processor has fulfilled: \<open>completed++\<close> and the call
  of \<open>onProgress\<close>, which returns or throws (\<open>thrown\<close>). A throw there is a rejection of
  \<open>fn\<close>, and lands in the \<open>catch\<close> block like any other.\<close>

definition fn_rest :: "nat \<Rightarrow> error option \<Rightarrow> scheduler \<Rightarrow> scheduler" where
  "fn_rest i thrown w =
     (let w1 = w\<lparr>completed := completed w + 1, trace := trace w @ [Counted i]\<rparr>
      in if onProgress w1 then
           (let w2 = w1\<lparr>trace := trace w1 @ [Progress (completed w1) (length (chunkPromises w1))]\<rparr>
            in (case thrown of None \<Rightarrow> finish i (Inr ()) w2 | Some e \<Rightarrow> backoff i w2))
         else finish i (Inr ()) w1)"

subsection \<open>processChunks\<close>

text \<open>The \<open>finally\<close> block of \<open>mainPromise\<close>, after which it settles.\<close>

definition settle :: "error + unit \<Rightarrow> scheduler \<Rightarrow> scheduler" where
  "settle r w = (cleanup w)\<lparr>executing := [], mainPromise := Settled r\<rparr>"

definition await_all :: "scheduler \<Rightarrow> scheduler" where
  "await_all w =
     w\<lparr>mainPromise := AwaitAll (if executing w = [] then Some (Inr ()) else None)\<rparr>"

text \<open>One pass of the \<open>for\<close> body up to \<open>executing.add(promise)\<close>: \<open>processChunk\<close>
  runs as far as \<open>await chunkPromise\<close>.\<close>

definition submit :: "scheduler \<Rightarrow> scheduler" where
  "submit w =
     w\<lparr>tasks := tasks w @ [\<lparr>at = AwaitChunk, retry = 0\<rparr>],
       executing := executing w @ [length (tasks w)],
       trace := trace w @ [Submitted (length (tasks w))]\<rparr>"

text \<open>The \<open>for\<close> loop from the top of an iteration until \<open>mainPromise\<close> is suspended
  or settles.\<close>

function admit :: "scheduler \<Rightarrow> scheduler" where
  "admit w =
     (if length (tasks w) < length (chunkPromises w) then
        (case checkCancelled w of
           Inl e \<Rightarrow> settle (Inl e) w
         | Inr _ \<Rightarrow>
             if length (executing (submit w)) \<ge> concurrency w
             then (submit w)\<lparr>mainPromise := AwaitRace None\<rparr>
             else admit (submit w))
      else await_all w)"
  by pat_completeness auto
termination
  by (relation "measure (\<lambda>w. length (chunkPromises w) - length (tasks w))")
     (auto simp: submit_def)

declare admit.simps [simp del]

text \<open>\<open>processChunks\<close> makes the controller and runs the loop as far as its first
  \<open>await\<close>; the sources may have settled already or not. The value given to
  \<open>mainPromise\<close> before the loop has run is never read.\<close>

definition processChunks :: "(error + Chunk) option list \<Rightarrow> nat \<Rightarrow> bool \<Rightarrow> scheduler" where
  "processChunks srcs c progress =
     admit \<lparr>now = 0, promises = [], signals = [False], timeouts = [],
            paused = False, cancelled = False, pauseResolvers = [], timers = [],
            abortController = 0,
            chunkPromises = srcs, concurrency = c, onProgress = progress,
            executing = [], completed = 0, tasks = [], mainPromise = AwaitAll None,
            trace = []\<rparr>"

subsection \<open>What can happen next\<close>

text \<open>
  \<^item> \<open>SourceSettles i r\<close>: source \<open>i\<close> rejects or fulfils;
  \<^item> \<open>Continue i\<close>: task \<open>i\<close> goes on after the promise it awaits has settled;
  \<^item> \<open>ProcessorFulfils i thrown\<close>: the processor call of task \<open>i\<close> fulfils and \<open>fn\<close>
    goes on; \<open>thrown\<close> is what \<open>onProgress\<close> throws there, if it is called and throws;
  \<^item> \<open>ProcessorRejects i e\<close>: the processor call of task \<open>i\<close> throws or rejects;
  \<^item> \<open>TimerFires t\<close>, \<open>Elapse d\<close>: the host's timeouts and clock;
  \<^item> \<open>MainContinue\<close>: \<open>mainPromise\<close> goes on after its race or all has settled;
  \<^item> \<open>Pause\<close>, \<open>Resume\<close>, \<open>Cancel\<close>: the caller uses the returned controller.
  An event that cannot happen in the state leaves it as it is.
\<close>

datatype event =
  SourceSettles nat "error + Chunk" | Continue nat
  | ProcessorFulfils nat "error option" | ProcessorRejects nat error
  | TimerFires nat | Elapse nat | MainContinue | Pause | Resume | Cancel

text \<open>The call \<open>executeWithRetry(fn, controller)\<close> made by task \<open>i\<close>, up to its first
  \<open>await\<close>.\<close>

definition executeWithRetry :: "nat \<Rightarrow> scheduler \<Rightarrow> scheduler" where
  "executeWithRetry i w = attempt i (w\<lparr>tasks := (tasks w)[i := (tasks w ! i)\<lparr>retry := 0\<rparr>]\<rparr>)"

definition continue :: "nat \<Rightarrow> scheduler \<Rightarrow> scheduler" where
  "continue i w =
     (if i < length (tasks w) then
        (case at (tasks w ! i) of
           AwaitChunk \<Rightarrow>
             (case source w i of
                None \<Rightarrow> w
              | Some (Inl e) \<Rightarrow> finish i (Inl e) w
              | Some (Inr c) \<Rightarrow> executeWithRetry i w)
         | AwaitPaused None \<Rightarrow> invoke i w
         | AwaitPaused (Some p) \<Rightarrow> if settled w p then invoke i w else w
         | AwaitDelay p \<Rightarrow> if settled w p then attempt i w else w
         | _ \<Rightarrow> w)
      else w)"

definition main_continue :: "scheduler \<Rightarrow> scheduler" where
  "main_continue w =
     (case mainPromise w of
        AwaitRace (Some (Inr _)) \<Rightarrow>
          (case checkCancelled w of Inl e \<Rightarrow> settle (Inl e) w | Inr _ \<Rightarrow> admit w)
      | AwaitRace (Some (Inl e)) \<Rightarrow> settle (Inl e) w
      | AwaitAll (Some r) \<Rightarrow> settle r w
      | _ \<Rightarrow> w)"

fun step :: "event \<Rightarrow> scheduler \<Rightarrow> scheduler" where
  "step (SourceSettles i r) w =
     (if i < length (chunkPromises w) \<and> chunkPromises w ! i = None
      then w\<lparr>chunkPromises := (chunkPromises w)[i := Some r]\<rparr> else w)"
| "step (Continue i) w = continue i w"
| "step (ProcessorFulfils i thrown) w =
     (if i < length (tasks w) then
        (case at (tasks w ! i) of AwaitProcessor s \<Rightarrow> fn_rest i thrown w | _ \<Rightarrow> w)
      else w)"
| "step (ProcessorRejects i e) w =
     (if i < length (tasks w) then
        (case at (tasks w ! i) of AwaitProcessor s \<Rightarrow> backoff i w | _ \<Rightarrow> w)
      else w)"
| "step (TimerFires t) w = fire t w"
| "step (Elapse d) w = elapse d w"
| "step MainContinue w = main_continue w"
| "step Pause w = pause w"
| "step Resume w = resume w"
| "step Cancel w = cancel w"

definition exec :: "event list \<Rightarrow> scheduler \<Rightarrow> scheduler" where
  "exec evs w = fold step evs w"

section \<open>The controller on its own\<close>

text \<open>The methods of a \<open>TaskController\<close> and the host's timer events, as one caller
  after another may use them.\<close>

datatype call =
  DoPause | DoResume | DoCancel | DoCleanup | DoWaitIfPaused | DoDelay nat
  | DoFire nat | DoElapse nat

fun perform :: "call \<Rightarrow> 'a TaskController_scheme \<Rightarrow> 'a TaskController_scheme" where
  "perform DoPause c = pause c"
| "perform DoResume c = resume c"
| "perform DoCancel c = cancel c"
| "perform DoCleanup c = cleanup c"
| "perform DoWaitIfPaused c = snd (waitIfPaused c)"
| "perform (DoDelay ms) c = snd (delay ms c)"
| "perform (DoFire t) c = fire t c"
| "perform (DoElapse d) c = elapse d c"

definition calls :: "call list \<Rightarrow> 'a TaskController_scheme \<Rightarrow> 'a TaskController_scheme" where
  "calls cs c = fold perform cs c"

section \<open>collectChunks and calculateFileHash\<close>

text \<open>
  \<open>Promise.all\<close> is the language's: it keeps one slot per input promise, stores each
  fulfilment value in the slot of its promise, fulfils with the slots once none is
  empty, and rejects with the first rejection. Its input here is the order in which the
  sources settle, each source with its position in \<open>chunkPromises\<close>.
\<close>

datatype 'a outcome = Pending | Resolved 'a | Failed error

record 'a all_state =
  slots :: "'a option list"
  result :: "'a list outcome"

definition all_start :: "nat \<Rightarrow> 'a all_state" where
  "all_start n = \<lparr>slots = replicate n None, result = (if n = 0 then Resolved [] else Pending)\<rparr>"

fun all_settle :: "nat \<times> (error + 'a) \<Rightarrow> 'a all_state \<Rightarrow> 'a all_state" where
  "all_settle (i, Inl e) st = (if result st = Pending then st\<lparr>result := Failed e\<rparr> else st)"
| "all_settle (i, Inr v) st =
     (let vs = (slots st)[i := Some v]
      in st\<lparr>slots := vs,
            result := (if result st = Pending \<and> None \<notin> set vs
                       then Resolved (map the vs) else result st)\<rparr>)"

definition Promise_all :: "nat \<Rightarrow> (nat \<times> (error + 'a)) list \<Rightarrow> 'a list outcome" where
  "Promise_all n settles = result (fold all_settle settles (all_start n))"

text \<open>\<open>SparkMD5\<close> is a dependency: its hasher is the text appended so far, and
  \<open>end()\<close> is the digest \<open>md5\<close> of that text, a parameter here.\<close>

definition SparkMD5_append :: "string \<Rightarrow> string \<Rightarrow> string" where
  "SparkMD5_append hasher str = hasher @ str"

definition calculateFileHash ::
  "(string \<Rightarrow> string) \<Rightarrow> nat \<Rightarrow> (nat \<times> (error + Chunk)) list \<Rightarrow> string outcome" where
  "calculateFileHash md5 n settles =
     (case Promise_all n settles of
        Pending \<Rightarrow> Pending
      | Failed e \<Rightarrow> Failed e
      | Resolved chunks \<Rightarrow>
          Resolved (md5 (fold (\<lambda>chunk hasher. SparkMD5_append hasher (hash chunk)) chunks [])))"

definition collectChunks :: "nat \<Rightarrow> (nat \<times> (error + Chunk)) list \<Rightarrow> Chunk list outcome" where
  "collectChunks n settles = Promise_all n settles"

section \<open>Notions used in the proofs\<close>

text \<open>The stores after a batch of \<open>resolve\<close> and \<open>clearTimeout\<close> calls.\<close>

definition resolve_all :: "nat list \<Rightarrow> bool list \<Rightarrow> bool list" where
  "resolve_all ps st = fold (\<lambda>p s. s[p := True]) ps st"

definition disarm :: "nat \<Rightarrow> (nat \<times> nat \<times> bool) list \<Rightarrow> (nat \<times> nat \<times> bool) list" where
  "disarm t ts = (if t < length ts then ts[t := (fst (ts ! t), fst (snd (ts ! t)), False)] else ts)"

definition disarm_all :: "nat list \<Rightarrow> (nat \<times> nat \<times> bool) list \<Rightarrow> (nat \<times> nat \<times> bool) list" where
  "disarm_all ts st = fold disarm ts st"

text \<open>Every position held by the controller points into its store, and a paused
  controller has aborted its current signal.\<close>

definition wf_controller :: "'a TaskController_scheme \<Rightarrow> bool" where
  "wf_controller c =
     (abortController c < length (signals c) \<and>
      (paused c \<longrightarrow> signals c ! abortController c) \<and>
      (\<forall>p \<in> set (pauseResolvers c). p < length (promises c)))"

text \<open>The state of \<open>Promise.all\<close> over sources that fulfil with \<open>cs\<close>, once the
  sources in \<open>S\<close> have done so.\<close>

definition filled :: "'a list \<Rightarrow> nat set \<Rightarrow> 'a all_state" where
  "filled cs S =
     \<lparr>slots = map (\<lambda>i. if i \<in> S then Some (cs ! i) else None) [0..<length cs],
      result = (if {..<length cs} \<subseteq> S then Resolved cs else Pending)\<rparr>"


text \<open>A task is pending until it has fulfilled or rejected; \<open>inflight\<close> lists the
  pending tasks in the order of their sources.\<close>

fun pending :: "pc \<Rightarrow> bool" where
  "pending Fulfilled = False"
| "pending (Rejected e) = False"
| "pending _ = True"

definition inflight :: "task list \<Rightarrow> nat list" where
  "inflight ts = filter (\<lambda>i. pending (at (ts ! i))) [0..<length ts]"

text \<open>While \<open>mainPromise\<close> has not settled, \<open>executing\<close> is the list of pending
  tasks; there are never more of them than \<open>concurrency\<close>, and fewer once a race has
  been decided.\<close>

fun has_settled :: "main_pc \<Rightarrow> bool" where
  "has_settled (Settled x) = True"
| "has_settled _ = False"

fun race_won :: "main_pc \<Rightarrow> bool" where
  "race_won (AwaitRace (Some r)) = True"
| "race_won _ = False"

definition bounded :: "scheduler \<Rightarrow> bool" where
  "bounded w =
     ((has_settled (mainPromise w) \<longrightarrow> executing w = []) \<and>
      (\<not> has_settled (mainPromise w) \<longrightarrow> executing w = inflight (tasks w)) \<and>
      length (inflight (tasks w)) \<le> concurrency w \<and>
      (race_won (mainPromise w) \<longrightarrow> length (inflight (tasks w)) < concurrency w))"

text \<open>The delays task \<open>i\<close> has asked \<open>delay\<close> for, oldest first.\<close>

fun slept :: "nat \<Rightarrow> obs \<Rightarrow> nat list" where
  "slept i (Slept j d) = (if j = i then [d] else [])"
| "slept i _ = []"

definition delays_of :: "nat \<Rightarrow> obs list \<Rightarrow> nat list" where
  "delays_of i tr = concat (map (slept i) tr)"

text \<open>At every moment the delays a task has asked for are those of its attempts so
  far, and \<open>retry\<close> is \<open>0\<close> until \<open>executeWithRetry\<close> is entered.\<close>

definition backed_off :: "scheduler \<Rightarrow> bool" where
  "backed_off w =
     (\<forall>i. delays_of i (trace w) =
            (if i < length (tasks w) then map retryDelay [0..<retry (tasks w ! i)] else []) \<and>
          (i < length (tasks w) \<longrightarrow> at (tasks w ! i) = AwaitChunk \<longrightarrow> retry (tasks w ! i) = 0))"

text \<open>A run over one source whose processor rejects every time: after the source has
  fulfilled and the task has reached the processor, each round is a rejection, the
  passing of the longest delay, the firing of the round's timer, and the task's way
  back to the processor.\<close>

fun failing_run :: "Chunk \<Rightarrow> nat \<Rightarrow> event list" where
  "failing_run ch 0 = [SourceSettles 0 (Inr ch), Continue 0, Continue 0]"
| "failing_run ch (Suc k) =
     failing_run ch k @
     [ProcessorRejects 0 (Thrown k), Elapse 5000, TimerFires k, Continue 0, Continue 0]"

text \<open>The only task is at its processor for the attempt numbered \<open>k\<close>.\<close>

definition retrying :: "nat \<Rightarrow> scheduler \<Rightarrow> bool" where
  "retrying k w =
     (length (tasks w) = 1 \<and> (\<exists>s. at (tasks w ! 0) = AwaitProcessor s) \<and>
      retry (tasks w ! 0) = k \<and> \<not> cancelled w \<and> \<not> paused w \<and>
      length (timeouts w) = k)"

text \<open>A task that has rejected did so with the cancellation error or with the
  rejection of its own source.\<close>

definition confined :: "scheduler \<Rightarrow> bool" where
  "confined w =
     (\<forall>i e. i < length (tasks w) \<longrightarrow> at (tasks w ! i) = Rejected e \<longrightarrow>
            e = TaskCancelled \<or> source w i = Some (Inl e))"

text \<open>The entries of the trace that hand work over: a source given to
  \<open>processChunk\<close>, a processor called.\<close>

fun submission :: "obs \<Rightarrow> bool" where
  "submission (Submitted i) = True"
| "submission (Invoked i s) = True"
| "submission _ = False"

definition submissions :: "obs list \<Rightarrow> obs list" where
  "submissions tr = filter submission tr"


text \<open>The error \<open>mainPromise\<close> has received or rejected with, if any, is the
  cancellation error or the rejection of some source.\<close>

fun main_error :: "main_pc \<Rightarrow> error option" where
  "main_error (AwaitRace (Some (Inl e))) = Some e"
| "main_error (AwaitAll (Some (Inl e))) = Some e"
| "main_error (Settled (Inl e)) = Some e"
| "main_error _ = None"

definition blamed :: "scheduler \<Rightarrow> error \<Rightarrow> bool" where
  "blamed w e = (e = TaskCancelled \<or> Some (Inl e) \<in> set (chunkPromises w))"

definition answerable :: "scheduler \<Rightarrow> bool" where
  "answerable w = (\<forall>e. main_error (mainPromise w) = Some e \<longrightarrow> blamed w e)"

text \<open>Every promise named by a timeout or by \<open>pauseResolvers\<close> exists.\<close>

definition wf_store :: "'a TaskController_scheme \<Rightarrow> bool" where
  "wf_store c =
     ((\<forall>x \<in> set (timeouts c). fst (snd x) < length (promises c)) \<and>
      (\<forall>q \<in> set (pauseResolvers c). q < length (promises c)))"

text \<open>The promise \<open>p\<close> is unresolved, no pause resolver names it, and every armed
  timeout that would resolve it is due at \<open>d\<close>.\<close>

definition waiting :: "nat \<Rightarrow> nat \<Rightarrow> 'a TaskController_scheme \<Rightarrow> bool" where
  "waiting p d c =
     (p < length (promises c) \<and> \<not> promises c ! p \<and> p \<notin> set (pauseResolvers c) \<and>
      (\<forall>x \<in> set (timeouts c). fst (snd x) = p \<and> snd (snd x) \<longrightarrow> fst x = d))"

text \<open>The stores of \<open>c'\<close> are those of \<open>c\<close> with new, unresolved promises, and with new
  pause resolvers and timeouts that name new promises only.\<close>

definition extends :: "'a TaskController_scheme \<Rightarrow> 'b TaskController_scheme \<Rightarrow> bool" where
  "extends c c' =
     ((\<exists>n. promises c' = promises c @ replicate n False) \<and>
      (\<exists>qs. pauseResolvers c' = pauseResolvers c @ qs \<and>
            (\<forall>q \<in> set qs. length (promises c) \<le> q \<and> q < length (promises c'))) \<and>
      (\<exists>ts. timeouts c' = timeouts c @ ts \<and>
            (\<forall>x \<in> set ts. length (promises c) \<le> fst (snd x) \<and>
                           fst (snd x) < length (promises c'))) \<and>
      now c' = now c)"

text \<open>The events in which neither the caller nor the end of the run touches the
  controller.\<close>

fun quiet :: "event \<Rightarrow> bool" where
  "quiet Pause = False"
| "quiet Resume = False"
| "quiet Cancel = False"
| "quiet MainContinue = False"
| "quiet _ = True"

text \<open>Task \<open>i\<close> is still suspended on the delay promise \<open>p\<close>, due at \<open>d\<close>, or the
  clock has reached \<open>d\<close>.\<close>

definition holding :: "nat \<Rightarrow> nat \<Rightarrow> nat \<Rightarrow> scheduler \<Rightarrow> bool" where
  "holding i p d w =
     (d \<le> now w \<or>
      i < length (tasks w) \<and> at (tasks w ! i) = AwaitDelay p \<and> waiting p d w)"

text \<open>The events in which \<open>onProgress\<close>, if it is called, returns.\<close>

fun polite :: "event \<Rightarrow> bool" where
  "polite (ProcessorFulfils i (Some e)) = False"
| "polite _ = True"

text \<open>\<open>completed\<close> is the number of fulfilled tasks, a chunk has been counted once if
  its task has fulfilled and not at all otherwise, and no more tasks exist than
  sources.\<close>

definition tallied :: "scheduler \<Rightarrow> bool" where
  "tallied w =
     (completed w = length (filter (\<lambda>t. at t = Fulfilled) (tasks w)) \<and>
      (\<forall>i. count_list (trace w) (Counted i) =
           (if i < length (tasks w) \<and> at (tasks w ! i) = Fulfilled then 1 else 0)) \<and>
      length (tasks w) \<le> length (chunkPromises w))"

text \<open>The run of \<open>failing_run\<close> with the clock advanced, in each round, by the delay of
  that round and no more.\<close>

fun timed_run :: "Chunk \<Rightarrow> nat \<Rightarrow> event list" where
  "timed_run ch 0 = [SourceSettles 0 (Inr ch), Continue 0, Continue 0]"
| "timed_run ch (Suc k) =
     timed_run ch k @
     [ProcessorRejects 0 (Thrown k), Elapse (retryDelay k), TimerFires k, Continue 0, Continue 0]"

text \<open>The only task is at its processor for the attempt numbered \<open>k\<close>, and the clock
  shows the sum of the delays of the attempts before.\<close>

definition on_time :: "nat \<Rightarrow> scheduler \<Rightarrow> bool" where
  "on_time k w = (retrying k w \<and> now w = sum_list (map retryDelay [0..<k]))"
section \<open>Examples\<close>

definition chunk_at :: "nat \<Rightarrow> string \<Rightarrow> Chunk" where
  "chunk_at i h = \<lparr>blob = [], hash = h, index = i, start = i, end_offset = i + 1\<rparr>"

definition three_chunks :: "Chunk list" where
  "three_chunks = [chunk_at 0 ''h0'', chunk_at 1 ''h1'', chunk_at 2 ''h2'']"

section \<open>Facts about the controller\<close>

lemma length_resolve_all [simp]: "length (resolve_all ps st) = length st"
  unfolding resolve_all_def by (induction ps arbitrary: st) auto

lemma nth_resolve_all:
  "q < length st \<Longrightarrow> resolve_all ps st ! q = (q \<in> set ps \<or> st ! q)"
proof (induction ps arbitrary: st)
  case Nil
  then show ?case by (simp add: resolve_all_def)
next
  case (Cons a ps)
  have "resolve_all (a # ps) st = resolve_all ps (st[a := True])"
    by (simp add: resolve_all_def)
  moreover have "st[a := True] ! q = (q = a \<or> st ! q)"
    using Cons.prems by (cases "a < length st") (auto simp: nth_list_update)
  ultimately show ?case using Cons.IH [of "st[a := True]"] Cons.prems by auto
qed

lemma length_disarm [simp]: "length (disarm t ts) = length ts"
  by (simp add: disarm_def)

lemma length_disarm_all [simp]: "length (disarm_all ts st) = length st"
  unfolding disarm_all_def by (induction ts arbitrary: st) auto

lemma clearTimeout_eq: "clearTimeout t h = h\<lparr>timeouts := disarm t (timeouts h)\<rparr>"
  by (simp add: clearTimeout_def disarm_def)

lemma fold_clear:
  "fold (\<lambda>(timer, p) h. resolve p (clearTimeout timer h)) xs c =
   c\<lparr>promises := resolve_all (map snd xs) (promises c),
     timeouts := disarm_all (map fst xs) (timeouts c)\<rparr>"
  by (induction xs arbitrary: c)
     (auto simp: resolve_all_def disarm_all_def resolve_def clearTimeout_eq)

lemma clearTimers_eq:
  "clearTimers c =
   c\<lparr>timers := [], promises := resolve_all (map snd (timers c)) (promises c),
     timeouts := disarm_all (map fst (timers c)) (timeouts c)\<rparr>"
  by (simp add: clearTimers_def fold_clear)

lemma fold_resolve:
  "fold resolve ps c = c\<lparr>promises := resolve_all ps (promises c)\<rparr>"
  by (induction ps arbitrary: c) (auto simp: resolve_all_def resolve_def)

lemma release_eq:
  "release c = c\<lparr>pauseResolvers := [], promises := resolve_all (pauseResolvers c) (promises c)\<rparr>"
  by (simp add: release_def fold_resolve)

lemmas controller_defs =
  pause_def resume_def cancel_def cleanup_def abort_def new_AbortController_def
  clearTimers_eq release_eq

lemma cancelled_pause [simp]: "cancelled (pause c) = cancelled c"
  and cancelled_resume [simp]: "cancelled (resume c) = cancelled c"
  and cancelled_cancel [simp]: "cancelled (cancel c)"
  and cancelled_cleanup [simp]: "cancelled (cleanup c) = cancelled c"
  by (simp_all add: controller_defs Let_def)

lemma fire_eq:
  "fire t h =
     (if t < length (timeouts h) \<and> snd (snd (timeouts h ! t)) \<and> fst (timeouts h ! t) \<le> now h
      then h\<lparr>timeouts := disarm t (timeouts h),
             promises := (promises h)[fst (snd (timeouts h ! t)) := True]\<rparr>
      else h)"
  by (auto simp: fire_def clearTimeout_eq resolve_def split: prod.splits)

lemmas call_defs =
  controller_defs waitIfPaused_def delay_def new_Promise_def setTimeout_def fire_eq elapse_def

lemma cancelled_call: "cancelled c \<Longrightarrow> cancelled (perform x c)"
  by (cases x) (auto simp: call_defs Let_def split: prod.splits)

lemma cancelled_calls: "cancelled c \<Longrightarrow> cancelled (calls cs c)"
  unfolding calls_def by (induction cs arbitrary: c) (auto simp: cancelled_call)

lemma wf_call: "wf_controller c \<Longrightarrow> wf_controller (perform x c)"
  by (cases x)
     (auto simp: wf_controller_def call_defs Let_def nth_append less_Suc_eq
           split: prod.splits)

lemma wf_calls: "wf_controller c \<Longrightarrow> wf_controller (calls cs c)"
  unfolding calls_def by (induction cs arbitrary: c) (auto simp: wf_call)

lemma wf_new: "wf_controller new_TaskController"
  by (simp add: wf_controller_def new_TaskController_def)

text \<open>
  Claim C6. \<open>resume()\<close> leaves an unpaused controller as it is. On a paused one (any
  controller reached from a new one) it clears \<open>paused\<close>; the signal in use before,
  which the pause had aborted, stays aborted, as does every signal made earlier; the
  signal handed out from now on is a new one, at a position no earlier signal has, and
  is not aborted; \<open>pauseResolvers\<close> is emptied and every promise that was in it is
  resolved. In a run, \<open>resume()\<close> leaves every task where it is, a running processor
  with the signal it was given; a processor called after the \<open>resume()\<close> of a paused
  controller is given the new signal.
\<close>

theorem resume_spec:
  "(\<not> paused (calls cs new_TaskController) \<longrightarrow>
      resume (calls cs new_TaskController) = calls cs new_TaskController) \<and>
   (paused (calls cs new_TaskController) \<longrightarrow>
      \<not> paused (resume (calls cs new_TaskController)) \<and>
      aborted (calls cs new_TaskController) (signal (calls cs new_TaskController)) \<and>
      signal (resume (calls cs new_TaskController)) = length (signals (calls cs new_TaskController)) \<and>
      \<not> aborted (resume (calls cs new_TaskController)) (signal (resume (calls cs new_TaskController))) \<and>
      (\<forall>s < length (signals (calls cs new_TaskController)).
          aborted (resume (calls cs new_TaskController)) s = aborted (calls cs new_TaskController) s) \<and>
      pauseResolvers (resume (calls cs new_TaskController)) = [] \<and>
      (\<forall>p \<in> set (pauseResolvers (calls cs new_TaskController)).
          settled (resume (calls cs new_TaskController)) p)) \<and>
   tasks (resume w) = tasks w \<and>
   (paused w \<and> \<not> cancelled w \<and> i < length (tasks w) \<longrightarrow>
      at (tasks (invoke i (resume w)) ! i) = AwaitProcessor (signal (resume w)) \<and>
      signal (resume w) = length (signals w) \<and>
      \<not> aborted (resume w) (signal (resume w)))"
proof -
  define c where "c = calls cs new_TaskController"
  have wf: "wf_controller c"
    unfolding c_def by (rule wf_calls [OF wf_new])
  have "\<not> paused c \<Longrightarrow> resume c = c"
    by (simp add: resume_def)
  moreover have "paused c \<Longrightarrow> \<not> paused (resume c)"
    by (simp add: controller_defs)
  moreover have "paused c \<Longrightarrow> aborted c (signal c)"
    using wf by (simp add: wf_controller_def aborted_def signal_def)
  moreover have "paused c \<Longrightarrow> signal (resume c) = length (signals c)"
    by (simp add: controller_defs signal_def)
  moreover have "paused c \<Longrightarrow> \<not> aborted (resume c) (signal (resume c))"
    by (simp add: controller_defs signal_def aborted_def)
  moreover have "paused c \<Longrightarrow> s < length (signals c) \<Longrightarrow> aborted (resume c) s = aborted c s" for s
    by (simp add: controller_defs aborted_def nth_append)
  moreover have "paused c \<Longrightarrow> pauseResolvers (resume c) = []"
    by (simp add: controller_defs)
  moreover have "paused c \<Longrightarrow> p \<in> set (pauseResolvers c) \<Longrightarrow> settled (resume c) p" for p
    using wf by (simp add: controller_defs settled_def wf_controller_def nth_resolve_all)
  moreover have "tasks (resume w) = tasks w"
    by (simp add: controller_defs)
  moreover have "paused w \<Longrightarrow> \<not> cancelled w \<Longrightarrow> i < length (tasks w) \<Longrightarrow>
      at (tasks (invoke i (resume w)) ! i) = AwaitProcessor (signal (resume w)) \<and>
      signal (resume w) = length (signals w) \<and>
      \<not> aborted (resume w) (signal (resume w))"
    by (simp add: controller_defs invoke_def checkCancelled_def set_at_def signal_def
          aborted_def)
  ultimately show ?thesis
    unfolding c_def by blast
qed

theorem resume_spec_witness:
  "paused (calls [DoPause, DoWaitIfPaused] new_TaskController) \<and>
   0 \<in> set (pauseResolvers (calls [DoPause, DoWaitIfPaused] new_TaskController)) \<and>
   \<not> paused (resume (calls [DoPause, DoWaitIfPaused] new_TaskController)) \<and>
   aborted (calls [DoPause, DoWaitIfPaused] new_TaskController)
     (signal (calls [DoPause, DoWaitIfPaused] new_TaskController)) \<and>
   \<not> aborted (resume (calls [DoPause, DoWaitIfPaused] new_TaskController))
     (signal (resume (calls [DoPause, DoWaitIfPaused] new_TaskController))) \<and>
   settled (resume (calls [DoPause, DoWaitIfPaused] new_TaskController)) 0 \<and>
   paused (exec [SourceSettles 0 (Inr (chunk_at 0 ''h0'')), Continue 0, Pause]
             (processChunks [None] 6 False)) \<and>
   at (tasks (invoke 0 (resume (exec [SourceSettles 0 (Inr (chunk_at 0 ''h0'')), Continue 0, Pause]
                                   (processChunks [None] 6 False)))) ! 0)
     = AwaitProcessor (signal (resume (exec [SourceSettles 0 (Inr (chunk_at 0 ''h0'')), Continue 0, Pause]
                                         (processChunks [None] 6 False))))"
proof -
  let ?c = "calls [DoPause, DoWaitIfPaused] new_TaskController"
  let ?w = "exec [SourceSettles 0 (Inr (chunk_at 0 ''h0'')), Continue 0, Pause]
              (processChunks [None] 6 False)"
  have p: "paused ?c" by code_simp
  have m: "0 \<in> set (pauseResolvers ?c)" by code_simp
  have q: "paused ?w" "\<not> cancelled ?w" "0 < length (tasks ?w)" by code_simp+
  from resume_spec [of "[DoPause, DoWaitIfPaused]" ?w 0] p m q show ?thesis
    by blast
qed

section \<open>Facts about Promise.all\<close>

lemma all_start_filled: "all_start (length cs) = filled cs {}"
  by (auto simp: all_start_def filled_def intro: nth_equalityI)

lemma slots_filled_update:
  assumes "i < length cs"
  shows "(slots (filled cs S))[i := Some (cs ! i)] = slots (filled cs (insert i S))"
  using assms by (auto simp: filled_def nth_list_update intro!: nth_equalityI)

lemma None_in_filled: "None \<in> set (slots (filled cs S)) \<longleftrightarrow> \<not> {..<length cs} \<subseteq> S"
  by (auto simp: filled_def)

lemma the_filled: "{..<length cs} \<subseteq> S \<Longrightarrow> map the (slots (filled cs S)) = cs"
  by (auto simp: filled_def intro!: nth_equalityI)

lemma all_settle_filled:
  assumes "i < length cs"
  shows "all_settle (i, Inr (cs ! i)) (filled cs S) = filled cs (insert i S)"
proof -
  have s: "(slots (filled cs S))[i := Some (cs ! i)] = slots (filled cs (insert i S))"
    by (rule slots_filled_update [OF assms])
  have r: "result (filled cs (insert i S)) =
        (if result (filled cs S) = Pending \<and> None \<notin> set (slots (filled cs (insert i S)))
         then Resolved (map the (slots (filled cs (insert i S)))) else result (filled cs S))"
  proof (cases "{..<length cs} \<subseteq> insert i S")
    case True
    then show ?thesis
      by (simp add: None_in_filled the_filled) (auto simp: filled_def)
  next
    case False
    then have "\<not> {..<length cs} \<subseteq> S" by blast
    with False show ?thesis
      by (simp add: None_in_filled) (simp add: filled_def)
  qed
  show ?thesis
    by (simp add: Let_def s r [symmetric])
qed

lemma fold_all_settle_filled:
  "set order \<subseteq> {..<length cs} \<Longrightarrow>
   fold all_settle (map (\<lambda>i. (i, Inr (cs ! i))) order) (filled cs S) = filled cs (S \<union> set order)"
proof (induction order arbitrary: S)
  case Nil
  then show ?case by simp
next
  case (Cons i order)
  then have "i < length cs" by simp
  then show ?case
    using Cons.IH [of "insert i S"] Cons.prems
    by (simp add: all_settle_filled del: all_settle.simps)
qed

lemma Promise_all_fulfils:
  assumes "set order = {..<length cs}"
  shows "Promise_all (length cs) (map (\<lambda>i. (i, Inr (cs ! i))) order) = Resolved cs"
  using assms fold_all_settle_filled [of order cs "{}"]
  by (simp add: Promise_all_def all_start_filled) (simp add: filled_def)

lemma fold_append_hashes:
  "fold (\<lambda>chunk hasher. SparkMD5_append hasher (hash chunk)) cs acc = acc @ concat (map hash cs)"
  by (induction cs arbitrary: acc) (simp_all add: SparkMD5_append_def)

lemma result_sticky:
  "result st \<noteq> Pending \<Longrightarrow> result (fold all_settle evs st) = result st"
proof (induction evs arbitrary: st)
  case Nil
  then show ?case by simp
next
  case (Cons ev evs)
  obtain i r where ev: "ev = (i, r)" by (cases ev)
  have "result (all_settle ev st) = result st"
    using Cons.prems unfolding ev by (cases r) (simp_all add: Let_def)
  then show ?case using Cons by simp
qed

lemma fulfil_prefix_pending:
  assumes "j < length (slots st)" "slots st ! j = None" "result st = Pending"
    and "\<forall>ev \<in> set pre. fst ev \<noteq> j \<and> (\<exists>v. snd ev = Inr v)"
  shows "result (fold all_settle pre st) = Pending \<and>
         j < length (slots (fold all_settle pre st)) \<and> slots (fold all_settle pre st) ! j = None"
  using assms
proof (induction pre arbitrary: st)
  case Nil
  then show ?case by simp
next
  case (Cons ev pre)
  obtain i v where ev: "ev = (i, Inr v)" and ij: "i \<noteq> j"
    using Cons.prems(4) by (cases ev) auto
  let ?st = "all_settle ev st"
  have len: "j < length (slots ?st)" and nth: "slots ?st ! j = None"
    using Cons.prems ij by (simp_all add: ev Let_def)
  have "None \<in> set (slots ?st)"
    using len nth by (metis nth_mem)
  then have "result ?st = Pending"
    using Cons.prems(3) by (simp add: ev Let_def)
  then show ?case
    using Cons.IH [of ?st] len nth Cons.prems(4) by simp
qed

lemma Promise_all_waits:
  assumes "set order \<subseteq> {..<length cs}" "set order \<noteq> {..<length cs}"
  shows "Promise_all (length cs) (map (\<lambda>i. (i, Inr (cs ! i))) order) = Pending"
proof -
  have "\<not> {..<length cs} \<subseteq> set order" using assms by blast
  then show ?thesis
    using fold_all_settle_filled [OF assms(1), of "{}"]
    by (simp add: Promise_all_def all_start_filled) (simp add: filled_def)
qed

text \<open>
  Claim C7. Let the sources fulfil with the chunks \<open>cs\<close>, source \<open>i\<close> with
  \<open>cs ! i\<close>, in any order \<open>order\<close>. While some source has not settled,
  \<open>calculateFileHash\<close> has no result. Once every source has fulfilled, its result is
  the digest of the chunks' hashes appended in the order of their positions,
  whatever the order in which they fulfilled.
\<close>

theorem calculateFileHash_order:
  "(set order \<subseteq> {..<length cs} \<and> set order \<noteq> {..<length cs} \<longrightarrow>
      calculateFileHash md5 (length cs) (map (\<lambda>i. (i, Inr (cs ! i))) order) = Pending) \<and>
   (set order = {..<length cs} \<longrightarrow>
      calculateFileHash md5 (length cs) (map (\<lambda>i. (i, Inr (cs ! i))) order)
        = Resolved (md5 (concat (map hash cs))))"
  by (simp add: calculateFileHash_def Promise_all_fulfils Promise_all_waits fold_append_hashes)

theorem calculateFileHash_order_witness:
  "set [2, 0, 1] = {..<length three_chunks} \<and>
   calculateFileHash rev (length three_chunks) (map (\<lambda>i. (i, Inr (three_chunks ! i))) [2, 0, 1])
     = Resolved (rev (concat (map hash three_chunks))) \<and>
   concat (map hash three_chunks) = ''h0h1h2'' \<and>
   set [2, 0] \<subseteq> {..<length three_chunks} \<and> set [2, 0] \<noteq> {..<length three_chunks} \<and>
   calculateFileHash rev (length three_chunks) (map (\<lambda>i. (i, Inr (three_chunks ! i))) [2, 0])
     = Pending"
proof -
  have a: "set [2, 0, 1] = {..<length three_chunks}" by code_simp
  have b: "set [2, 0] \<subseteq> {..<length three_chunks}" "set [2, 0] \<noteq> {..<length three_chunks}"
    by code_simp+
  have c: "concat (map hash three_chunks) = ''h0h1h2''"
    by (simp add: three_chunks_def chunk_at_def)
  from calculateFileHash_order [of "[2, 0, 1]" three_chunks rev] a
    calculateFileHash_order [of "[2, 0]" three_chunks rev] b c
  show ?thesis by blast
qed

text \<open>
  Claim C8. When the sources fulfil with the chunks \<open>cs\<close> in any order,
  \<open>collectChunks\<close> returns \<open>cs\<close>, the chunks in the order of their sources. When a
  source rejects with \<open>e\<close> after others have fulfilled, however many, and whatever
  settles later, \<open>collectChunks\<close> fails with \<open>e\<close>.
\<close>

theorem collectChunks_spec:
  "(set order = {..<length cs} \<longrightarrow>
      collectChunks (length cs) (map (\<lambda>i. (i, Inr (cs ! i))) order) = Resolved cs) \<and>
   (j < n \<and> (\<forall>ev \<in> set pre. fst ev \<noteq> j \<and> (\<exists>v. snd ev = Inr v)) \<longrightarrow>
      collectChunks n (pre @ (j, Inl e) # post) = Failed e)"
proof (intro conjI impI)
  assume "set order = {..<length cs}"
  then show "collectChunks (length cs) (map (\<lambda>i. (i, Inr (cs ! i))) order) = Resolved cs"
    by (simp add: collectChunks_def Promise_all_fulfils)
next
  assume a: "j < n \<and> (\<forall>ev \<in> set pre. fst ev \<noteq> j \<and> (\<exists>v. snd ev = Inr v))"
  let ?st = "fold all_settle pre (all_start n :: Chunk all_state)"
  have "result ?st = Pending"
    using a fulfil_prefix_pending [of j "all_start n" pre] by (simp add: all_start_def)
  then have "result (all_settle (j, Inl e) ?st) = Failed e" by simp
  then have "result (fold all_settle post (all_settle (j, Inl e) ?st)) = Failed e"
    by (simp add: result_sticky)
  then show "collectChunks n (pre @ (j, Inl e) # post) = Failed e"
    by (simp add: collectChunks_def Promise_all_def)
qed

theorem collectChunks_spec_witness:
  "set [2, 0, 1] = {..<length three_chunks} \<and>
   collectChunks (length three_chunks) (map (\<lambda>i. (i, Inr (three_chunks ! i))) [2, 0, 1])
     = Resolved three_chunks \<and>
   (0::nat) < 3 \<and>
   collectChunks 3 ([(1, Inr (chunk_at 1 ''h1''))] @ (0, Inl (Thrown 7)) # [(2, Inr (chunk_at 2 ''h2''))])
     = Failed (Thrown 7)"
proof -
  have a: "set [2, 0, 1] = {..<length three_chunks}" by code_simp
  have b: "(0::nat) < 3 \<and> (\<forall>ev \<in> set [(1::nat, Inr (chunk_at 1 ''h1'') :: error + Chunk)].
       fst ev \<noteq> 0 \<and> (\<exists>v. snd ev = Inr v))" by simp
  from collectChunks_spec [of "[2, 0, 1]" three_chunks 0 3
      "[(1::nat, Inr (chunk_at 1 ''h1''))]" "Thrown 7" "[(2, Inr (chunk_at 2 ''h2''))]"] a b
  show ?thesis by blast
qed


section \<open>The cancelled flag is never cleared\<close>

lemma cancelled_finish [simp]: "cancelled (finish i r w) = cancelled w"
  by (simp add: finish_def set_at_def Let_def split: main_pc.splits option.splits sum.splits)

lemma cancelled_set_at [simp]: "cancelled (set_at i p w) = cancelled w"
  by (simp add: set_at_def)

lemma cancelled_attempt [simp]: "cancelled (attempt i w) = cancelled w"
  by (simp add: attempt_def checkCancelled_def waitIfPaused_def new_Promise_def split: prod.splits)

lemma cancelled_executeWithRetry [simp]: "cancelled (executeWithRetry i w) = cancelled w"
  by (simp add: executeWithRetry_def)

lemma cancelled_invoke [simp]: "cancelled (invoke i w) = cancelled w"
  by (simp add: invoke_def checkCancelled_def)

lemma cancelled_backoff [simp]: "cancelled (backoff i w) = cancelled w"
  by (simp add: backoff_def delay_def new_Promise_def setTimeout_def Let_def split: prod.splits)

lemma cancelled_fn_rest [simp]: "cancelled (fn_rest i t w) = cancelled w"
  by (simp add: fn_rest_def Let_def split: option.splits)

lemma cancelled_settle [simp]: "cancelled (settle r w) = cancelled w"
  by (simp add: settle_def)

lemma cancelled_admit [simp]: "cancelled (admit w) = cancelled w"
  by (induction w rule: admit.induct)
     (subst admit.simps, simp add: checkCancelled_def await_all_def submit_def)

lemma cancelled_continue [simp]: "cancelled (continue i w) = cancelled w"
  by (simp add: continue_def split: pc.splits option.splits sum.splits)

lemma cancelled_main_continue [simp]: "cancelled (main_continue w) = cancelled w"
  by (simp add: main_continue_def checkCancelled_def split: main_pc.splits option.splits sum.splits)

lemma cancelled_fire [simp]: "cancelled (fire t c) = cancelled c"
  by (simp add: fire_eq)

lemma cancelled_elapse [simp]: "cancelled (elapse t c) = cancelled c"
  by (simp add: elapse_def)

lemma cancelled_step: "cancelled (step e w) = (cancelled w \<or> e = Cancel)"
  by (cases e) (simp_all split: pc.splits)

lemma cancelled_exec: "cancelled w \<Longrightarrow> cancelled (exec evs w)"
  unfolding exec_def by (induction evs arbitrary: w) (simp_all add: cancelled_step)

lemma trace_finish [simp]: "trace (finish i r w) = trace w"
  by (simp add: finish_def set_at_def Let_def split: main_pc.splits option.splits sum.splits)

lemma at_finish:
  "i < length (tasks w) \<Longrightarrow>
   at (tasks (finish i r w) ! i) = (case r of Inl e \<Rightarrow> Rejected e | Inr _ \<Rightarrow> Fulfilled)"
  by (simp add: finish_def set_at_def Let_def split: main_pc.splits option.splits sum.splits)

lemma executeWithRetry_cancelled:
  "cancelled w \<Longrightarrow>
   executeWithRetry i w =
     finish i (Inl TaskCancelled) (w\<lparr>tasks := (tasks w)[i := (tasks w ! i)\<lparr>retry := 0\<rparr>]\<rparr>)"
  by (simp add: executeWithRetry_def attempt_def checkCancelled_def)

text \<open>
  Claim C9. Once \<open>cancel()\<close> has been called, whatever is called on the controller
  afterwards (\<open>pause\<close>, \<open>resume\<close>, \<open>cleanup\<close>, \<open>cancel\<close>, \<open>waitIfPaused\<close>,
  \<open>delay\<close>, timers firing) and whatever happens in a run afterwards, \<open>cancelled\<close>
  stays set and \<open>checkCancelled\<close> throws the cancellation error. A call of
  \<open>executeWithRetry\<close> made then calls no processor (the trace is as before) and
  rejects with the cancellation error.
\<close>

theorem cancel_is_final:
  "cancelled (calls cs (cancel c)) \<and>
   checkCancelled (calls cs (cancel c)) = Inl TaskCancelled \<and>
   cancelled (exec evs (cancel w)) \<and>
   checkCancelled (exec evs (cancel w)) = Inl TaskCancelled \<and>
   trace (executeWithRetry i (exec evs (cancel w))) = trace (exec evs (cancel w)) \<and>
   (i < length (tasks (exec evs (cancel w))) \<longrightarrow>
      at (tasks (executeWithRetry i (exec evs (cancel w))) ! i) = Rejected TaskCancelled)"
proof -
  have a: "cancelled (calls cs (cancel c))"
    by (rule cancelled_calls) simp
  have b: "cancelled (exec evs (cancel w))"
    by (rule cancelled_exec) simp
  show ?thesis
    using a b
    by (simp add: checkCancelled_def executeWithRetry_cancelled at_finish)
qed

theorem cancel_is_final_witness:
  "0 < length (tasks (exec [Pause, Resume, SourceSettles 0 (Inr (chunk_at 0 ''h0'')), Cancel]
                        (cancel (processChunks [None] 6 True)))) \<and>
   cancelled (calls [DoPause, DoResume, DoCleanup, DoCancel] (cancel new_TaskController)) \<and>
   cancelled (exec [Pause, Resume, SourceSettles 0 (Inr (chunk_at 0 ''h0'')), Cancel]
                (cancel (processChunks [None] 6 True))) \<and>
   at (tasks (executeWithRetry 0
         (exec [Pause, Resume, SourceSettles 0 (Inr (chunk_at 0 ''h0'')), Cancel]
            (cancel (processChunks [None] 6 True)))) ! 0) = Rejected TaskCancelled"
proof -
  have h: "0 < length (tasks (exec [Pause, Resume, SourceSettles 0 (Inr (chunk_at 0 ''h0'')), Cancel]
                        (cancel (processChunks [None] 6 True))))"
    by code_simp
  from cancel_is_final [of "[DoPause, DoResume, DoCleanup, DoCancel]" new_TaskController
      "[Pause, Resume, SourceSettles 0 (Inr (chunk_at 0 ''h0'')), Cancel]"
      "processChunks [None] 6 True" 0] h
  show ?thesis by blast
qed

section \<open>The bound on tasks in flight\<close>

lemma inflight_same:
  assumes "i < length ts" "pending (at t) = pending (at (ts ! i))"
  shows "inflight (ts[i := t]) = inflight ts"
  unfolding inflight_def using assms
  by (auto intro!: filter_cong simp: nth_list_update)

lemma inflight_settled:
  assumes "i < length ts" "\<not> pending (at t)"
  shows "inflight (ts[i := t]) = removeAll i (inflight ts)"
proof -
  have "filter (\<lambda>j. pending (at (ts[i := t] ! j))) [0..<length ts]
        = filter (\<lambda>j. i \<noteq> j \<and> pending (at (ts ! j))) [0..<length ts]"
    using assms by (auto intro!: filter_cong simp: nth_list_update)
  then show ?thesis
    by (simp add: inflight_def removeAll_filter_not_eq conj_commute)
qed

lemma inflight_snoc:
  "inflight (ts @ [t]) = inflight ts @ (if pending (at t) then [length ts] else [])"
proof -
  have "filter (\<lambda>i. pending (at ((ts @ [t]) ! i))) [0..<length ts] = inflight ts"
    unfolding inflight_def by (auto intro!: filter_cong simp: nth_append)
  then show ?thesis by (simp add: inflight_def)
qed

lemma distinct_inflight [simp]: "distinct (inflight ts)"
  by (simp add: inflight_def)

lemma set_inflight: "set (inflight ts) = {i. i < length ts \<and> pending (at (ts ! i))}"
  by (auto simp: inflight_def)

lemma bounded_set_at:
  assumes "bounded w" "i < length (tasks w)" "pending (at (tasks w ! i))" "pending p"
  shows "bounded (set_at i p w)"
  using assms
  by (simp add: bounded_def set_at_def inflight_same split: main_pc.splits option.splits)

lemma bounded_finish:
  assumes "bounded w" "i < length (tasks w)" "pending (at (tasks w ! i))"
  shows "bounded (finish i r w)"
proof -
  have mem: "i \<in> set (inflight (tasks w))"
    using assms by (simp add: set_inflight)
  have lt: "length (removeAll i (inflight (tasks w))) < length (inflight (tasks w))"
    by (rule length_removeAll_less [OF mem])
  show ?thesis
    using assms(1) lt
    by (cases "mainPromise w")
       (auto simp: bounded_def finish_def set_at_def Let_def inflight_settled [OF assms(2)]
             split: option.splits sum.splits)
qed

lemma bounded_frame [simp]:
  "bounded (w\<lparr>promises := a\<rparr>) = bounded w"
  "bounded (w\<lparr>timeouts := b\<rparr>) = bounded w"
  "bounded (w\<lparr>signals := c\<rparr>) = bounded w"
  "bounded (w\<lparr>now := d\<rparr>) = bounded w"
  "bounded (w\<lparr>paused := e\<rparr>) = bounded w"
  "bounded (w\<lparr>cancelled := f\<rparr>) = bounded w"
  "bounded (w\<lparr>pauseResolvers := g\<rparr>) = bounded w"
  "bounded (w\<lparr>timers := h\<rparr>) = bounded w"
  "bounded (w\<lparr>abortController := k\<rparr>) = bounded w"
  "bounded (w\<lparr>trace := l\<rparr>) = bounded w"
  "bounded (w\<lparr>completed := m\<rparr>) = bounded w"
  "bounded (w\<lparr>chunkPromises := n\<rparr>) = bounded w"
  by (simp_all add: bounded_def)

lemma bounded_retry:
  assumes "bounded w" "i < length (tasks w)"
  shows "bounded (w\<lparr>tasks := (tasks w)[i := (tasks w ! i)\<lparr>retry := n\<rparr>]\<rparr>)"
  using assms by (simp add: bounded_def inflight_same)

lemma bounded_attempt:
  assumes "bounded w" "i < length (tasks w)" "pending (at (tasks w ! i))"
  shows "bounded (attempt i w)"
  using assms
  by (auto simp: attempt_def checkCancelled_def waitIfPaused_def new_Promise_def
           intro!: bounded_finish bounded_set_at)

lemma bounded_executeWithRetry:
  assumes "bounded w" "i < length (tasks w)" "pending (at (tasks w ! i))"
  shows "bounded (executeWithRetry i w)"
  unfolding executeWithRetry_def using assms
  by (intro bounded_attempt bounded_retry) simp_all

lemma bounded_invoke:
  assumes "bounded w" "i < length (tasks w)" "pending (at (tasks w ! i))"
  shows "bounded (invoke i w)"
  using assms
  by (auto simp: invoke_def checkCancelled_def intro!: bounded_finish bounded_set_at)

lemma bounded_backoff:
  assumes "bounded w" "i < length (tasks w)" "pending (at (tasks w ! i))"
  shows "bounded (backoff i w)"
proof -
  let ?w1 = "w\<lparr>tasks := (tasks w)[i := (tasks w ! i)\<lparr>retry := retry (tasks w ! i) + 1\<rparr>]\<rparr>"
  have b1: "bounded ?w1" by (rule bounded_retry [OF assms(1,2)])
  have p1: "i < length (tasks ?w1)" "pending (at (tasks ?w1 ! i))"
    using assms by simp_all
  show ?thesis
    using b1 p1
    by (auto simp: backoff_def delay_def new_Promise_def setTimeout_def Let_def
             intro!: bounded_set_at)
qed

lemma bounded_fn_rest:
  assumes "bounded w" "i < length (tasks w)" "pending (at (tasks w ! i))"
  shows "bounded (fn_rest i t w)"
  using assms
  by (auto simp: fn_rest_def Let_def split: option.splits
           intro!: bounded_finish bounded_backoff)

lemma bounded_continue:
  assumes "bounded w"
  shows "bounded (continue i w)"
  using assms
  by (auto simp: continue_def split: pc.splits option.splits sum.splits
           intro!: bounded_finish bounded_executeWithRetry bounded_invoke bounded_attempt)

lemma bounded_cleanup [simp]: "bounded (cleanup w) = bounded w"
  and bounded_pause [simp]: "bounded (pause w) = bounded w"
  and bounded_resume [simp]: "bounded (resume w) = bounded w"
  and bounded_cancel [simp]: "bounded (cancel w) = bounded w"
  and bounded_fire [simp]: "bounded (fire t w) = bounded w"
  and bounded_elapse [simp]: "bounded (elapse d w) = bounded w"
  by (simp_all add: call_defs Let_def)

lemma cleanup_fields [simp]:
  "tasks (cleanup w) = tasks w" "concurrency (cleanup w) = concurrency w"
  by (simp_all add: call_defs)

lemma bounded_settle:
  assumes "bounded w"
  shows "bounded (settle r w)"
  using assms by (simp add: bounded_def settle_def)

lemma bounded_admit:
  assumes "executing w = inflight (tasks w)" "length (inflight (tasks w)) < concurrency w"
  shows "bounded (admit w)"
  using assms
proof (induction w rule: admit.induct)
  case (1 w)
  show ?case
  proof (cases "length (tasks w) < length (chunkPromises w)")
    case False
    then show ?thesis
      using "1.prems" by (subst admit.simps) (simp add: await_all_def bounded_def)
  next
    case more: True
    show ?thesis
    proof (cases "cancelled w")
      case True
      then show ?thesis
        using "1.prems" more
        by (subst admit.simps) (simp add: checkCancelled_def bounded_def settle_def)
    next
      case False
      have ex: "executing (submit w) = inflight (tasks (submit w))"
        using "1.prems" by (simp add: submit_def inflight_snoc)
      have len: "length (inflight (tasks (submit w))) = Suc (length (inflight (tasks w)))"
        by (simp add: submit_def inflight_snoc)
      have cc: "concurrency (submit w) = concurrency w" by (simp add: submit_def)
      show ?thesis
      proof (cases "concurrency w \<le> length (executing (submit w))")
        case True
        then show ?thesis
          using more False ex len "1.prems"
          by (subst admit.simps) (simp add: checkCancelled_def bounded_def cc)
      next
        case nf: False
        have "bounded (admit (submit w))"
          using "1.IH" [of "()"] more False nf ex cc
          by (simp add: checkCancelled_def)
        then show ?thesis
          using more False nf by (subst admit.simps) (simp add: checkCancelled_def)
      qed
    qed
  qed
qed

lemma bounded_main_continue:
  assumes "bounded w"
  shows "bounded (main_continue w)"
  using assms
  by (auto simp: main_continue_def checkCancelled_def
           split: main_pc.splits option.splits sum.splits
           intro!: bounded_settle bounded_admit)
     (auto simp: bounded_def)

lemma bounded_step:
  assumes "bounded w"
  shows "bounded (step e w)"
  using assms
  by (cases e)
     (auto split: pc.splits
           intro!: bounded_continue bounded_fn_rest bounded_backoff bounded_main_continue)

lemma bounded_exec: "bounded w \<Longrightarrow> bounded (exec evs w)"
  unfolding exec_def by (induction evs arbitrary: w) (simp_all add: bounded_step)

lemma bounded_processChunks: "1 \<le> c \<Longrightarrow> bounded (processChunks srcs c progress)"
  unfolding processChunks_def by (rule bounded_admit) (simp_all add: inflight_def)

lemma concurrency_finish [simp]: "concurrency (finish i r w) = concurrency w"
  by (simp add: finish_def set_at_def Let_def split: main_pc.splits option.splits sum.splits)

lemma concurrency_attempt [simp]: "concurrency (attempt i w) = concurrency w"
  by (simp add: attempt_def checkCancelled_def waitIfPaused_def new_Promise_def set_at_def)

lemma concurrency_executeWithRetry [simp]: "concurrency (executeWithRetry i w) = concurrency w"
  by (simp add: executeWithRetry_def)

lemma concurrency_invoke [simp]: "concurrency (invoke i w) = concurrency w"
  by (simp add: invoke_def checkCancelled_def set_at_def)

lemma concurrency_backoff [simp]: "concurrency (backoff i w) = concurrency w"
  by (simp add: backoff_def delay_def new_Promise_def setTimeout_def Let_def set_at_def)

lemma concurrency_fn_rest [simp]: "concurrency (fn_rest i t w) = concurrency w"
  by (simp add: fn_rest_def Let_def split: option.splits)

lemma concurrency_controller [simp]:
  "concurrency (cleanup w) = concurrency w" "concurrency (pause w) = concurrency w"
  "concurrency (resume w) = concurrency w" "concurrency (cancel w) = concurrency w"
  "concurrency (fire t w) = concurrency w" "concurrency (elapse d w) = concurrency w"
  by (simp_all add: call_defs Let_def)

lemma concurrency_settle [simp]: "concurrency (settle r w) = concurrency w"
  by (simp add: settle_def)

lemma concurrency_admit [simp]: "concurrency (admit w) = concurrency w"
  by (induction w rule: admit.induct)
     (subst admit.simps, simp add: checkCancelled_def await_all_def submit_def)

lemma concurrency_continue [simp]: "concurrency (continue i w) = concurrency w"
  by (simp add: continue_def split: pc.splits option.splits sum.splits)

lemma concurrency_main_continue [simp]: "concurrency (main_continue w) = concurrency w"
  by (simp add: main_continue_def checkCancelled_def split: main_pc.splits option.splits sum.splits)

lemma concurrency_step [simp]: "concurrency (step e w) = concurrency w"
  by (cases e) (simp_all split: pc.splits)

lemma concurrency_exec [simp]: "concurrency (exec evs w) = concurrency w"
  unfolding exec_def by (induction evs arbitrary: w) simp_all

lemma concurrency_processChunks [simp]: "concurrency (processChunks srcs c progress) = c"
  by (simp add: processChunks_def)

lemma length_tasks_finish [simp]: "length (tasks (finish i r w)) = length (tasks w)"
  by (simp add: finish_def set_at_def Let_def split: main_pc.splits option.splits sum.splits)

lemma length_tasks_attempt [simp]: "length (tasks (attempt i w)) = length (tasks w)"
  by (simp add: attempt_def checkCancelled_def waitIfPaused_def new_Promise_def set_at_def)

lemma length_tasks_executeWithRetry [simp]:
  "length (tasks (executeWithRetry i w)) = length (tasks w)"
  by (simp add: executeWithRetry_def)

lemma length_tasks_invoke [simp]: "length (tasks (invoke i w)) = length (tasks w)"
  by (simp add: invoke_def checkCancelled_def set_at_def)

lemma length_tasks_backoff [simp]: "length (tasks (backoff i w)) = length (tasks w)"
  by (simp add: backoff_def delay_def new_Promise_def setTimeout_def Let_def set_at_def)

lemma length_tasks_fn_rest [simp]: "length (tasks (fn_rest i t w)) = length (tasks w)"
  by (simp add: fn_rest_def Let_def split: option.splits)

lemma tasks_controller [simp]:
  "tasks (cleanup w) = tasks w" "tasks (pause w) = tasks w"
  "tasks (resume w) = tasks w" "tasks (cancel w) = tasks w"
  "tasks (fire t w) = tasks w" "tasks (elapse d w) = tasks w"
  by (simp_all add: call_defs Let_def)

lemma tasks_settle [simp]: "tasks (settle r w) = tasks w"
  by (simp add: settle_def)

lemma length_tasks_continue [simp]: "length (tasks (continue i w)) = length (tasks w)"
  by (simp add: continue_def split: pc.splits option.splits sum.splits)

lemma length_tasks_main_continue:
  "\<not> race_won (mainPromise w) \<Longrightarrow> length (tasks (main_continue w)) = length (tasks w)"
  by (auto simp: main_continue_def split: main_pc.splits option.splits sum.splits)

lemma length_tasks_step:
  "\<not> race_won (mainPromise w) \<Longrightarrow> length (tasks (step e w)) = length (tasks w)"
  by (cases e) (simp_all add: length_tasks_main_continue split: pc.splits)

lemma race_finish:
  "mainPromise w = AwaitRace None \<Longrightarrow> i \<in> set (executing w) \<Longrightarrow>
   mainPromise (finish i r w) = AwaitRace (Some r)"
  by (simp add: finish_def set_at_def Let_def)

lemma admit_waits:
  "length (tasks w) < length (chunkPromises w) \<Longrightarrow> \<not> cancelled w \<Longrightarrow>
   concurrency w \<le> length (executing (submit w)) \<Longrightarrow>
   admit w = (submit w)\<lparr>mainPromise := AwaitRace None\<rparr>"
  by (subst admit.simps) (simp add: checkCancelled_def)

lemma admit_grows:
  "\<exists>ts tr. tasks (admit w) = tasks w @ ts \<and> trace (admit w) = trace w @ tr"
proof (induction w rule: admit.induct)
  case (1 w)
  show ?case
  proof (cases "length (tasks w) < length (chunkPromises w) \<and> \<not> cancelled w \<and>
                \<not> concurrency w \<le> length (executing (submit w))")
    case True
    then obtain ts tr where
      "tasks (admit (submit w)) = tasks (submit w) @ ts"
      "trace (admit (submit w)) = trace (submit w) @ tr"
      using "1.IH" [of "()"] by (auto simp: checkCancelled_def)
    then have "tasks (admit (submit w)) = tasks w @ (\<lparr>at = AwaitChunk, retry = 0\<rparr> # ts)"
      "trace (admit (submit w)) = trace w @ (Submitted (length (tasks w)) # tr)"
      by (simp_all add: submit_def)
    moreover have "admit w = admit (submit w)"
      using True by (subst admit.simps) (simp add: checkCancelled_def)
    ultimately show ?thesis by metis
  next
    case False
    have "tasks (admit w) = tasks w @ [] \<and> trace (admit w) = trace w @ []
          \<or> tasks (admit w) = tasks w @ [\<lparr>at = AwaitChunk, retry = 0\<rparr>] \<and>
            trace (admit w) = trace w @ [Submitted (length (tasks w))]"
      using False
      by (subst (1 2 3 4) admit.simps)
         (auto simp: checkCancelled_def await_all_def submit_def settle_def call_defs)
    then show ?thesis by blast
  qed
qed

lemma admit_submits:
  assumes "length (tasks w) < length (chunkPromises w)" "\<not> cancelled w"
  shows "\<exists>ts tr. tasks (admit w) = tasks w @ \<lparr>at = AwaitChunk, retry = 0\<rparr> # ts \<and>
                 trace (admit w) = trace w @ Submitted (length (tasks w)) # tr"
proof (cases "concurrency w \<le> length (executing (submit w))")
  case True
  then have "admit w = (submit w)\<lparr>mainPromise := AwaitRace None\<rparr>"
    using assms by (subst admit.simps) (simp add: checkCancelled_def)
  then have "tasks (admit w) = tasks w @ \<lparr>at = AwaitChunk, retry = 0\<rparr> # [] \<and>
             trace (admit w) = trace w @ Submitted (length (tasks w)) # []"
    by (simp add: submit_def)
  then show ?thesis by blast
next
  case False
  then have a: "admit w = admit (submit w)"
    using assms by (subst admit.simps) (simp add: checkCancelled_def)
  obtain ts tr where
    "tasks (admit (submit w)) = tasks (submit w) @ ts"
    "trace (admit (submit w)) = trace (submit w) @ tr"
    using admit_grows [of "submit w"] by blast
  then have "tasks (admit w) = tasks w @ \<lparr>at = AwaitChunk, retry = 0\<rparr> # ts \<and>
             trace (admit w) = trace w @ Submitted (length (tasks w)) # tr"
    using a by (simp add: submit_def)
  then show ?thesis by blast
qed

lemma race_decided_admits:
  assumes "mainPromise w = AwaitRace (Some (Inr ()))" "\<not> cancelled w"
  shows "step MainContinue w = admit w"
  using assms by (simp add: main_continue_def checkCancelled_def)

lemma race_decided_submits:
  assumes "mainPromise w = AwaitRace (Some (Inr ()))" "\<not> cancelled w"
    "length (tasks w) < length (chunkPromises w)"
  shows "length (tasks w) < length (tasks (step MainContinue w))"
    and "tasks (step MainContinue w) ! length (tasks w) = \<lparr>at = AwaitChunk, retry = 0\<rparr>"
    and "take (length (tasks w)) (tasks (step MainContinue w)) = tasks w"
    and "take (Suc (length (trace w))) (trace (step MainContinue w))
           = trace w @ [Submitted (length (tasks w))]"
proof -
  obtain ts tr where e:
    "tasks (admit w) = tasks w @ \<lparr>at = AwaitChunk, retry = 0\<rparr> # ts"
    "trace (admit w) = trace w @ Submitted (length (tasks w)) # tr"
    using admit_submits [OF assms(3,2)] by blast
  have s: "step MainContinue w = admit w" by (rule race_decided_admits [OF assms(1,2)])
  show "length (tasks w) < length (tasks (step MainContinue w))"
    by (simp only: s e) simp
  show "tasks (step MainContinue w) ! length (tasks w) = \<lparr>at = AwaitChunk, retry = 0\<rparr>"
    by (simp only: s e nth_append_length)
  show "take (length (tasks w)) (tasks (step MainContinue w)) = tasks w"
    by (simp only: s e) simp
  show "take (Suc (length (trace w))) (trace (step MainContinue w))
           = trace w @ [Submitted (length (tasks w))]"
    by (simp only: s e) simp
qed

lemma race_undecided_waits:
  "mainPromise w = AwaitRace None \<Longrightarrow> step MainContinue w = w"
  by (simp add: main_continue_def)

lemma race_rejected_settles:
  "mainPromise w = AwaitRace (Some (Inl x)) \<Longrightarrow> step MainContinue w = settle (Inl x) w"
  by (simp add: main_continue_def)

text \<open>
  Claim C5. In every run with \<open>concurrency\<close> at least one, at every moment, at most
  \<open>concurrency\<close> tasks have not settled, and \<open>executing\<close> holds at most that many.
  When the loop has added a task and \<open>executing\<close> has reached \<open>concurrency\<close>, it
  stops at the race; while the race is undecided nothing that happens adds a task,
  and the loop itself stays where it is; any one member of \<open>executing\<close> that settles
  decides the race. Once one task has fulfilled and so decided the race, the loop goes
  on, however many other tasks are still in \<open>executing\<close>: unless the controller is
  cancelled it runs the admission again, and if a source is left it hands the next one
  to \<open>processChunk\<close> at once. A race decided by a rejection ends the run instead.
\<close>

theorem in_flight_bound:
  "(1 \<le> c \<longrightarrow>
     length (inflight (tasks (exec evs (processChunks srcs c progress)))) \<le> c \<and>
     length (executing (exec evs (processChunks srcs c progress))) \<le> c \<and>
     (length (tasks w) < length (chunkPromises w) \<and> \<not> cancelled w \<and>
      concurrency w \<le> length (executing (submit w)) \<longrightarrow>
        admit w = (submit w)\<lparr>mainPromise := AwaitRace None\<rparr>) \<and>
     (mainPromise (exec evs (processChunks srcs c progress)) = AwaitRace None \<longrightarrow>
        length (tasks (step e (exec evs (processChunks srcs c progress))))
          = length (tasks (exec evs (processChunks srcs c progress))) \<and>
        (i \<in> set (executing (exec evs (processChunks srcs c progress))) \<longrightarrow>
           mainPromise (finish i r (exec evs (processChunks srcs c progress)))
             = AwaitRace (Some r)))) \<and>
   (mainPromise v = AwaitRace None \<longrightarrow> step MainContinue v = v) \<and>
   (mainPromise v = AwaitRace (Some (Inr ())) \<and> \<not> cancelled v \<longrightarrow>
      step MainContinue v = admit v) \<and>
   (mainPromise v = AwaitRace (Some (Inr ())) \<and> \<not> cancelled v \<and>
    length (tasks v) < length (chunkPromises v) \<longrightarrow>
      length (tasks v) < length (tasks (step MainContinue v)) \<and>
      tasks (step MainContinue v) ! length (tasks v) = \<lparr>at = AwaitChunk, retry = 0\<rparr> \<and>
      take (length (tasks v)) (tasks (step MainContinue v)) = tasks v \<and>
      take (Suc (length (trace v))) (trace (step MainContinue v))
        = trace v @ [Submitted (length (tasks v))]) \<and>
   (mainPromise v = AwaitRace (Some (Inl x)) \<longrightarrow>
      step MainContinue v = settle (Inl x) v)"
proof -
  let ?w = "exec evs (processChunks srcs c progress)"
  have old: "length (inflight (tasks ?w)) \<le> c \<and> length (executing ?w) \<le> c \<and>
     (length (tasks w) < length (chunkPromises w) \<and> \<not> cancelled w \<and>
      concurrency w \<le> length (executing (submit w)) \<longrightarrow>
        admit w = (submit w)\<lparr>mainPromise := AwaitRace None\<rparr>) \<and>
     (mainPromise ?w = AwaitRace None \<longrightarrow>
        length (tasks (step e ?w)) = length (tasks ?w) \<and>
        (i \<in> set (executing ?w) \<longrightarrow> mainPromise (finish i r ?w) = AwaitRace (Some r)))"
    if c: "1 \<le> c"
  proof -
    have b: "bounded ?w"
      by (intro bounded_exec bounded_processChunks c)
    have cc: "concurrency ?w = c" by simp
    have 1: "length (inflight (tasks ?w)) \<le> c"
      using b cc by (simp add: bounded_def)
    have 2: "length (executing ?w) \<le> c"
      using b cc by (cases "has_settled (mainPromise ?w)") (simp_all add: bounded_def)
    have 3: "mainPromise ?w = AwaitRace None \<Longrightarrow>
          length (tasks (step e ?w)) = length (tasks ?w)"
      by (simp add: length_tasks_step)
    show ?thesis
      using 1 2 3 admit_waits [of w] race_finish [of ?w i r] by blast
  qed
  show ?thesis
    using old race_undecided_waits [of v] race_decided_admits [of v]
      race_decided_submits [of v] race_rejected_settles [of v x]
    by blast
qed

theorem in_flight_bound_witness:
  "(1::nat) \<le> 2 \<and>
   length (inflight (tasks (exec [] (processChunks [None, None, None] 2 False)))) \<le> 2 \<and>
   mainPromise (exec [] (processChunks [None, None, None] 2 False)) = AwaitRace None \<and>
   1 \<in> set (executing (exec [] (processChunks [None, None, None] 2 False))) \<and>
   mainPromise (finish 1 (Inr ()) (exec [] (processChunks [None, None, None] 2 False)))
     = AwaitRace (Some (Inr ())) \<and>
   length (tasks (step MainContinue (exec [] (processChunks [None, None, None] 2 False))))
     = length (tasks (exec [] (processChunks [None, None, None] 2 False))) \<and>
   mainPromise (exec [SourceSettles 0 (Inr (chunk_at 0 ''h0'')), Continue 0, Continue 0,
                      ProcessorFulfils 0 None]
                  (processChunks [None, None, None] 2 False)) = AwaitRace (Some (Inr ())) \<and>
   executing (exec [SourceSettles 0 (Inr (chunk_at 0 ''h0'')), Continue 0, Continue 0,
                    ProcessorFulfils 0 None]
                (processChunks [None, None, None] 2 False)) = [1] \<and>
   length (tasks (exec [SourceSettles 0 (Inr (chunk_at 0 ''h0'')), Continue 0, Continue 0,
                        ProcessorFulfils 0 None]
                    (processChunks [None, None, None] 2 False))) = 2 \<and>
   length (tasks (exec [SourceSettles 0 (Inr (chunk_at 0 ''h0'')), Continue 0, Continue 0,
                        ProcessorFulfils 0 None]
                    (processChunks [None, None, None] 2 False)))
     < length (tasks (step MainContinue
         (exec [SourceSettles 0 (Inr (chunk_at 0 ''h0'')), Continue 0, Continue 0,
                ProcessorFulfils 0 None]
            (processChunks [None, None, None] 2 False))))"
proof -
  let ?w = "exec [] (processChunks [None, None, None] 2 False)"
  let ?v = "exec [SourceSettles 0 (Inr (chunk_at 0 ''h0'')), Continue 0, Continue 0,
                  ProcessorFulfils 0 None]
              (processChunks [None, None, None] 2 False)"
  have a: "mainPromise ?w = AwaitRace None" by code_simp
  have b: "1 \<in> set (executing ?w)" by code_simp
  have c: "(1::nat) \<le> 2" by simp
  have d: "mainPromise ?v = AwaitRace (Some (Inr ()))" "\<not> cancelled ?v"
    "length (tasks ?v) < length (chunkPromises ?v)" "executing ?v = [1]"
    "length (tasks ?v) = 2"
    by code_simp+
  from in_flight_bound [of 2 "[]" "[None, None, None]" False
      "processChunks [None, None] 2 False" MainContinue 1 "Inr ()" ?v] a b c d
  show ?thesis by blast
qed

section \<open>Back-off delays\<close>

lemma backed_off_frame [simp]:
  "backed_off (w\<lparr>promises := a\<rparr>) = backed_off w"
  "backed_off (w\<lparr>timeouts := b\<rparr>) = backed_off w"
  "backed_off (w\<lparr>signals := c\<rparr>) = backed_off w"
  "backed_off (w\<lparr>now := d\<rparr>) = backed_off w"
  "backed_off (w\<lparr>paused := e\<rparr>) = backed_off w"
  "backed_off (w\<lparr>cancelled := f\<rparr>) = backed_off w"
  "backed_off (w\<lparr>pauseResolvers := g\<rparr>) = backed_off w"
  "backed_off (w\<lparr>timers := h\<rparr>) = backed_off w"
  "backed_off (w\<lparr>abortController := k\<rparr>) = backed_off w"
  "backed_off (w\<lparr>executing := l\<rparr>) = backed_off w"
  "backed_off (w\<lparr>completed := m\<rparr>) = backed_off w"
  "backed_off (w\<lparr>chunkPromises := n\<rparr>) = backed_off w"
  "backed_off (w\<lparr>mainPromise := q\<rparr>) = backed_off w"
  by (simp_all add: backed_off_def)

lemma backed_off_cong:
  assumes "tasks w' = tasks w" "trace w' = trace w"
  shows "backed_off w' = backed_off w"
  using assms by (simp add: backed_off_def)

lemma backed_off_trace:
  assumes "backed_off w" "\<And>i. slept i x = []"
  shows "backed_off (w\<lparr>trace := trace w @ [x]\<rparr>)"
  using assms by (simp add: backed_off_def delays_of_def)

lemma backed_off_set_at:
  assumes "backed_off w" "p \<noteq> AwaitChunk"
  shows "backed_off (set_at i p w)"
proof (cases "i < length (tasks w)")
  case True
  then show ?thesis
    using assms by (auto simp: backed_off_def set_at_def nth_list_update)
next
  case False
  then show ?thesis
    using assms by (simp add: backed_off_def set_at_def list_update_beyond)
qed

lemma backed_off_finish:
  assumes "backed_off w"
  shows "backed_off (finish i r w)"
proof -
  have "backed_off (set_at i (case r of Inl e \<Rightarrow> Rejected e | Inr _ \<Rightarrow> Fulfilled) w)"
    by (rule backed_off_set_at [OF assms]) (simp split: sum.splits)
  then show ?thesis
    by (simp add: finish_def Let_def split: main_pc.splits option.splits sum.splits)
qed

lemma backed_off_attempt:
  assumes "backed_off w"
  shows "backed_off (attempt i w)"
  using assms
  by (auto simp: attempt_def checkCancelled_def waitIfPaused_def new_Promise_def
           intro!: backed_off_finish backed_off_set_at)

lemma backed_off_executeWithRetry:
  assumes "backed_off w" "i < length (tasks w)" "at (tasks w ! i) = AwaitChunk"
  shows "backed_off (executeWithRetry i w)"
proof -
  have "retry (tasks w ! i) = 0"
    using assms by (simp add: backed_off_def)
  then have "(tasks w)[i := (tasks w ! i)\<lparr>retry := 0\<rparr>] = tasks w"
    by (simp add: list_update_same_conv assms(2))
  then show ?thesis
    using assms(1) by (simp add: executeWithRetry_def backed_off_attempt)
qed

lemma backed_off_invoke:
  assumes "backed_off w"
  shows "backed_off (invoke i w)"
  using assms
  by (auto simp: invoke_def checkCancelled_def
           intro!: backed_off_finish backed_off_set_at backed_off_trace)

lemma backed_off_backoff:
  assumes "backed_off w" "i < length (tasks w)" "at (tasks w ! i) \<noteq> AwaitChunk"
  shows "backed_off (backoff i w)"
proof -
  let ?n = "retry (tasks w ! i)"
  let ?p = "length (promises w)"
  let ?w1 = "w\<lparr>tasks := (tasks w)[i := (tasks w ! i)\<lparr>retry := ?n + 1\<rparr>],
              trace := trace w @ [Slept i (retryDelay ?n)]\<rparr>"
  have "backed_off ?w1"
    using assms by (auto simp: backed_off_def delays_of_def nth_list_update)
  then have "backed_off (set_at i (AwaitDelay ?p) ?w1)"
    by (rule backed_off_set_at) simp
  moreover have "backed_off (backoff i w) = backed_off (set_at i (AwaitDelay ?p) ?w1)"
    by (rule backed_off_cong)
       (simp_all add: backoff_def delay_def new_Promise_def setTimeout_def Let_def set_at_def)
  ultimately show ?thesis by simp
qed

lemma backed_off_counted:
  assumes "backed_off w"
  shows "backed_off (w\<lparr>completed := n, trace := trace w @ [Counted i]\<rparr>)"
proof -
  have "backed_off (w\<lparr>completed := n, trace := trace w @ [Counted i]\<rparr>)
        = backed_off (w\<lparr>trace := trace w @ [Counted i]\<rparr>)"
    by (rule backed_off_cong) simp_all
  then show ?thesis
    using backed_off_trace [OF assms, of "Counted i"] by simp
qed

lemma backed_off_fn_rest:
  assumes "backed_off w" "i < length (tasks w)" "at (tasks w ! i) \<noteq> AwaitChunk"
  shows "backed_off (fn_rest i t w)"
proof -
  let ?w1 = "w\<lparr>completed := completed w + 1, trace := trace w @ [Counted i]\<rparr>"
  have 1: "backed_off ?w1"
    by (rule backed_off_counted [OF assms(1)])
  have 2: "backed_off (?w1\<lparr>trace := trace ?w1 @ [Progress a b]\<rparr>)" for a b
    by (rule backed_off_trace [OF 1]) simp
  have 3: "i < length (tasks ?w1)" "at (tasks ?w1 ! i) \<noteq> AwaitChunk"
    using assms by simp_all
  show ?thesis
    unfolding fn_rest_def Let_def
    using 1 2 3
    by (auto split: option.splits intro!: backed_off_finish backed_off_backoff)
qed

lemma backed_off_continue:
  assumes "backed_off w"
  shows "backed_off (continue i w)"
  using assms
  by (auto simp: continue_def split: pc.splits option.splits sum.splits
           intro!: backed_off_finish backed_off_executeWithRetry backed_off_invoke
                   backed_off_attempt)

lemma backed_off_controller [simp]:
  "backed_off (cleanup w) = backed_off w" "backed_off (pause w) = backed_off w"
  "backed_off (resume w) = backed_off w" "backed_off (cancel w) = backed_off w"
  "backed_off (fire t w) = backed_off w" "backed_off (elapse d w) = backed_off w"
  by (simp_all add: call_defs Let_def)

lemma backed_off_settle [simp]: "backed_off (settle r w) = backed_off w"
  by (simp add: settle_def)

lemma backed_off_submit:
  assumes "backed_off w"
  shows "backed_off (submit w)"
  using assms
  by (auto simp: backed_off_def submit_def delays_of_def nth_append)

lemma backed_off_admit:
  assumes "backed_off w"
  shows "backed_off (admit w)"
  using assms
proof (induction w rule: admit.induct)
  case (1 w)
  have s: "backed_off (submit w)" by (rule backed_off_submit [OF "1.prems"])
  show ?case
  proof (cases "length (tasks w) < length (chunkPromises w) \<and> \<not> cancelled w \<and>
                \<not> concurrency w \<le> length (executing (submit w))")
    case True
    then have "backed_off (admit (submit w))"
      using "1.IH" [of "()"] s by (simp add: checkCancelled_def)
    then show ?thesis
      using True by (subst admit.simps) (simp add: checkCancelled_def)
  next
    case False
    then show ?thesis
      using "1.prems" s
      by (subst admit.simps) (auto simp: checkCancelled_def await_all_def)
  qed
qed

lemma backed_off_main_continue:
  assumes "backed_off w"
  shows "backed_off (main_continue w)"
  using assms
  by (auto simp: main_continue_def checkCancelled_def
           split: main_pc.splits option.splits sum.splits intro!: backed_off_admit)

lemma backed_off_step:
  assumes "backed_off w"
  shows "backed_off (step e w)"
  using assms
  by (cases e)
     (auto split: pc.splits
           intro!: backed_off_continue backed_off_fn_rest backed_off_backoff
                   backed_off_main_continue)

lemma backed_off_exec: "backed_off w \<Longrightarrow> backed_off (exec evs w)"
  unfolding exec_def by (induction evs arbitrary: w) (simp_all add: backed_off_step)

lemma backed_off_processChunks: "backed_off (processChunks srcs c progress)"
  unfolding processChunks_def
  by (rule backed_off_admit) (simp add: backed_off_def delays_of_def)

lemma exec_append: "exec (xs @ ys) w = exec ys (exec xs w)"
  by (simp add: exec_def)

lemma retryDelay_le: "retryDelay n \<le> 5000"
  by (simp add: retryDelay_def)

lemma retrying_start: "retrying 0 (exec (failing_run ch 0) (processChunks [None] c progress))"
proof -
  have "processChunks [None] c progress =
        \<lparr>now = 0, promises = [], signals = [False], timeouts = [],
            paused = False, cancelled = False, pauseResolvers = [], timers = [],
            abortController = 0,
            chunkPromises = [None], concurrency = c, onProgress = progress,
            executing = [0], completed = 0, tasks = [\<lparr>at = AwaitChunk, retry = 0\<rparr>],
            mainPromise = (if c \<le> 1 then AwaitRace None else AwaitAll None),
            trace = [Submitted 0]\<rparr>"
    unfolding processChunks_def
    by (subst admit.simps, simp add: checkCancelled_def submit_def,
        subst admit.simps, simp add: await_all_def)
  then show ?thesis
    by (simp add: retrying_def exec_def continue_def source_def executeWithRetry_def
          attempt_def invoke_def checkCancelled_def waitIfPaused_def set_at_def)
qed

lemma retrying_round:
  assumes "retrying k w"
  shows "retrying (Suc k)
           (exec [ProcessorRejects 0 e, Elapse 5000, TimerFires k, Continue 0, Continue 0] w)"
proof -
  obtain s where s: "at (tasks w ! 0) = AwaitProcessor s"
    using assms by (auto simp: retrying_def)
  have l: "length (tasks w) = 1" "retry (tasks w ! 0) = k" "\<not> cancelled w" "\<not> paused w"
    "length (timeouts w) = k"
    using assms by (simp_all add: retrying_def)
  have d: "retryDelay k \<le> 5000" by (rule retryDelay_le)
  show ?thesis
    using s l d
    by (simp add: retrying_def exec_def backoff_def delay_def new_Promise_def setTimeout_def
          Let_def set_at_def elapse_def fire_def clearTimeout_def resolve_def settled_def
          continue_def attempt_def invoke_def checkCancelled_def waitIfPaused_def
          nth_append)
qed

lemma retrying_failing_run:
  "retrying k (exec (failing_run ch k) (processChunks [None] c progress))"
proof (induction k)
  case 0
  show ?case by (rule retrying_start)
next
  case (Suc k)
  show ?case
    using retrying_round [OF Suc]
    by (simp only: failing_run.simps exec_append)
qed

section \<open>What escapes executeWithRetry\<close>

lemma confined_cong:
  assumes "tasks w' = tasks w" "chunkPromises w' = chunkPromises w"
  shows "confined w' = confined w"
  using assms by (simp add: confined_def source_def)










lemma confined_controller [simp]:
  "confined (cleanup w) = confined w" "confined (pause w) = confined w"
  "confined (resume w) = confined w" "confined (cancel w) = confined w"
  "confined (fire t w) = confined w" "confined (elapse d w) = confined w"
  by (rule confined_cong; simp add: call_defs Let_def)+

lemma confined_settle [simp]: "confined (settle r w) = confined w"
  by (rule confined_cong) (simp_all add: settle_def call_defs)








lemma at_set_at: "i < length (tasks w) \<Longrightarrow> at (tasks (set_at i p w) ! i) = p"
  by (simp add: set_at_def)












section \<open>After cancel\<close>

lemma trace_set_at [simp]: "trace (set_at i p w) = trace w"
  by (simp add: set_at_def)

lemma trace_attempt [simp]: "trace (attempt i w) = trace w"
  by (simp add: attempt_def checkCancelled_def waitIfPaused_def new_Promise_def)

lemma trace_executeWithRetry [simp]: "trace (executeWithRetry i w) = trace w"
  by (simp add: executeWithRetry_def)


lemma submissions_backoff [simp]:
  "submissions (trace (backoff i w)) = submissions (trace w)"
  by (simp add: backoff_def delay_def new_Promise_def setTimeout_def Let_def submissions_def)

lemma submissions_fn_rest [simp]:
  "submissions (trace (fn_rest i t w)) = submissions (trace w)"
proof -
  have "submissions (trace (backoff i v)) = submissions (trace w)"
    if "submissions (trace v) = submissions (trace w)" for v
    using that by simp
  then show ?thesis
    by (simp add: fn_rest_def Let_def submissions_def split: option.splits)
qed

lemma trace_controller [simp]:
  "trace (cleanup w) = trace w" "trace (pause w) = trace w"
  "trace (resume w) = trace w" "trace (cancel w) = trace w"
  "trace (fire t w) = trace w" "trace (elapse d w) = trace w"
  by (simp_all add: call_defs Let_def)

lemma trace_settle [simp]: "trace (settle r w) = trace w"
  by (simp add: settle_def)






lemma mainPromise_set_at [simp]: "mainPromise (set_at i p w) = mainPromise w"
  by (simp add: set_at_def)





lemma mainPromise_backoff [simp]: "mainPromise (backoff i w) = mainPromise w"
  by (simp add: backoff_def delay_def new_Promise_def setTimeout_def Let_def)



lemma mainPromise_controller [simp]:
  "mainPromise (cleanup w) = mainPromise w" "mainPromise (pause w) = mainPromise w"
  "mainPromise (resume w) = mainPromise w" "mainPromise (cancel w) = mainPromise w"
  "mainPromise (fire t w) = mainPromise w" "mainPromise (elapse d w) = mainPromise w"
  by (simp_all add: call_defs Let_def)




lemma answerable_cong:
  assumes "mainPromise w' = mainPromise w" "chunkPromises w' = chunkPromises w"
  shows "answerable w' = answerable w"
  using assms by (simp add: answerable_def blamed_def)

lemma chunkPromises_set_at [simp]: "chunkPromises (set_at i p w) = chunkPromises w"
  by (simp add: set_at_def)

lemma chunkPromises_finish [simp]: "chunkPromises (finish i r w) = chunkPromises w"
  by (simp add: finish_def set_at_def Let_def split: main_pc.splits option.splits sum.splits)









lemma answerable_controller [simp]:
  "answerable (pause w) = answerable w"
  "answerable (resume w) = answerable w" "answerable (cancel w) = answerable w"
  "answerable (fire t w) = answerable w" "answerable (elapse d w) = answerable w"
  by (rule answerable_cong; simp add: call_defs Let_def)+













section \<open>Delays that begin after a pause or a cancel\<close>

lemma extends_refl: "extends c c"
  unfolding extends_def
  by (intro conjI exI [of _ 0] exI [of _ "[]"]) simp_all

lemma extends_cong:
  assumes "promises c' = promises c''" "pauseResolvers c' = pauseResolvers c''"
    "timeouts c' = timeouts c''" "now c' = now c''"
  shows "extends c c' = extends c c''"
  using assms by (simp add: extends_def)

lemma extends_same:
  assumes "promises c' = promises c" "pauseResolvers c' = pauseResolvers c"
    "timeouts c' = timeouts c" "now c' = now c"
  shows "extends c c'"
  using extends_cong [OF assms, of c] extends_refl [of c] by simp

lemma wf_store_extends:
  assumes "wf_store c" "extends c c'"
  shows "wf_store c'"
proof -
  obtain n qs ts where e:
    "promises c' = promises c @ replicate n False"
    "pauseResolvers c' = pauseResolvers c @ qs"
    "\<forall>q \<in> set qs. length (promises c) \<le> q \<and> q < length (promises c')"
    "timeouts c' = timeouts c @ ts"
    "\<forall>x \<in> set ts. length (promises c) \<le> fst (snd x) \<and> fst (snd x) < length (promises c')"
    using assms(2) unfolding extends_def by blast
  have l: "length (promises c) \<le> length (promises c')" by (simp add: e(1))
  show ?thesis
    unfolding wf_store_def
  proof (intro conjI ballI)
    fix x assume "x \<in> set (timeouts c')"
    then consider "x \<in> set (timeouts c)" | "x \<in> set ts" by (auto simp: e(4))
    then show "fst (snd x) < length (promises c')"
    proof cases
      case 1
      then have "fst (snd x) < length (promises c)" using assms(1) by (simp add: wf_store_def)
      then show ?thesis using l by simp
    next
      case 2
      then show ?thesis using e(5) by simp
    qed
  next
    fix q assume "q \<in> set (pauseResolvers c')"
    then consider "q \<in> set (pauseResolvers c)" | "q \<in> set qs" by (auto simp: e(2))
    then show "q < length (promises c')"
    proof cases
      case 1
      then have "q < length (promises c)" using assms(1) by (simp add: wf_store_def)
      then show ?thesis using l by simp
    next
      case 2
      then show ?thesis using e(3) by simp
    qed
  qed
qed

lemma waiting_extends:
  assumes "waiting p d c" "extends c c'"
  shows "waiting p d c'"
proof -
  obtain n qs ts where e:
    "promises c' = promises c @ replicate n False"
    "pauseResolvers c' = pauseResolvers c @ qs"
    "\<forall>q \<in> set qs. length (promises c) \<le> q \<and> q < length (promises c')"
    "timeouts c' = timeouts c @ ts"
    "\<forall>x \<in> set ts. length (promises c) \<le> fst (snd x) \<and> fst (snd x) < length (promises c')"
    using assms(2) unfolding extends_def by blast
  have p: "p < length (promises c)" "\<not> promises c ! p" "p \<notin> set (pauseResolvers c)"
    and t: "\<forall>x \<in> set (timeouts c). fst (snd x) = p \<and> snd (snd x) \<longrightarrow> fst x = d"
    using assms(1) by (simp_all add: waiting_def)
  have 1: "p < length (promises c')" using p(1) by (simp add: e(1))
  have 2: "\<not> promises c' ! p" using p(1,2) by (simp add: e(1) nth_append)
  have 3: "p \<notin> set (pauseResolvers c')"
    using p(1,3) e(3) by (auto simp: e(2))
  have 4: "\<forall>x \<in> set (timeouts c'). fst (snd x) = p \<and> snd (snd x) \<longrightarrow> fst x = d"
    using t p(1) e(5) by (auto simp: e(4))
  show ?thesis
    using 1 2 3 4 by (simp add: waiting_def)
qed

lemma extends_finish: "extends w (finish i r w)"
  by (rule extends_same)
     (simp_all add: finish_def set_at_def Let_def split: main_pc.splits option.splits sum.splits)

lemma extends_attempt: "extends w (attempt i w)"
proof (cases "cancelled w \<or> \<not> paused w")
  case True
  then show ?thesis
    by (intro extends_same)
       (auto simp: attempt_def checkCancelled_def waitIfPaused_def set_at_def finish_def Let_def
             split: main_pc.splits option.splits sum.splits)
next
  case False
  then have a: "promises (attempt i w) = promises w @ replicate 1 False"
    "pauseResolvers (attempt i w) = pauseResolvers w @ [length (promises w)]"
    "timeouts (attempt i w) = timeouts w @ []" "now (attempt i w) = now w"
    by (simp_all add: attempt_def checkCancelled_def waitIfPaused_def new_Promise_def set_at_def)
  show ?thesis
    unfolding extends_def
    by (intro conjI exI [of _ 1] exI [of _ "[length (promises w)]"] exI [of _ "[]"])
       (simp_all add: a)
qed

lemma extends_executeWithRetry: "extends w (executeWithRetry i w)"
proof -
  let ?w = "w\<lparr>tasks := (tasks w)[i := (tasks w ! i)\<lparr>retry := 0\<rparr>]\<rparr>"
  have "extends ?w (attempt i ?w)" by (rule extends_attempt)
  then show ?thesis
    by (simp add: executeWithRetry_def extends_def)
qed

lemma extends_invoke: "extends w (invoke i w)"
  by (rule extends_same)
     (simp_all add: invoke_def checkCancelled_def set_at_def finish_def Let_def
           split: main_pc.splits option.splits sum.splits)

lemma stores_backoff:
  "promises (backoff i w) = promises w @ replicate 1 False"
  "pauseResolvers (backoff i w) = pauseResolvers w @ []"
  "timeouts (backoff i w) =
     timeouts w @ [(now w + retryDelay (retry (tasks w ! i)), length (promises w), True)]"
  "now (backoff i w) = now w"
  by (simp_all add: backoff_def delay_def new_Promise_def setTimeout_def Let_def set_at_def)

lemma extends_backoff: "extends w (backoff i w)"
  unfolding extends_def
  by (intro conjI exI [of _ 1] exI [of _ "[]"]
        exI [of _ "[(now w + retryDelay (retry (tasks w ! i)), length (promises w), True)]"])
     (simp_all add: stores_backoff)

lemma extends_cong_left:
  assumes "promises c = promises c''" "pauseResolvers c = pauseResolvers c''"
    "timeouts c = timeouts c''" "now c = now c''"
  shows "extends c c' = extends c'' c'"
  using assms by (simp add: extends_def)

lemma extends_fn_rest: "extends w (fn_rest i t w)"
proof -
  have "extends w (backoff i v)"
    if "promises v = promises w" "pauseResolvers v = pauseResolvers w" "timeouts v = timeouts w"
      "now v = now w"
    for v :: scheduler
    using extends_backoff [of v i] extends_cong_left [OF that, of "backoff i v"] by simp
  moreover have "extends w (finish i r v)"
    if "promises v = promises w" "pauseResolvers v = pauseResolvers w" "timeouts v = timeouts w"
      "now v = now w"
    for v :: scheduler and r
    using extends_finish [of v i r] extends_cong_left [OF that, of "finish i r v"] by simp
  ultimately show ?thesis
    by (simp add: fn_rest_def Let_def split: option.splits)
qed

lemma extends_continue: "extends w (continue i w)"
  by (auto simp: continue_def extends_refl extends_finish extends_executeWithRetry
        extends_invoke extends_attempt split: pc.splits option.splits sum.splits)

lemma callbacks_disarm:
  "map (\<lambda>x. fst (snd x)) (disarm t ts) = map (\<lambda>x. fst (snd x)) ts"
  by (auto simp: disarm_def map_update intro!: nth_equalityI simp: nth_list_update)

lemma callbacks_disarm_all:
  "map (\<lambda>x. fst (snd x)) (disarm_all xs ts) = map (\<lambda>x. fst (snd x)) ts"
  unfolding disarm_all_def
  by (induction xs arbitrary: ts) (simp_all add: callbacks_disarm)

lemma ball_callbacks:
  "(\<forall>x \<in> set ts. P (fst (snd x))) = list_all P (map (\<lambda>x. fst (snd x)) ts)"
  by (simp add: list_all_iff)

lemma ball_disarm:
  "(\<forall>x \<in> set (disarm t ts). P (fst (snd x))) = (\<forall>x \<in> set ts. P (fst (snd x)))"
  by (simp only: ball_callbacks callbacks_disarm)

lemma ball_disarm_all:
  "(\<forall>x \<in> set (disarm_all xs ts). P (fst (snd x))) = (\<forall>x \<in> set ts. P (fst (snd x)))"
  by (simp only: ball_callbacks callbacks_disarm_all)

lemma bound_disarm [simp]:
  "(\<forall>x \<in> set (disarm t ts). fst (snd x) < n) = (\<forall>x \<in> set ts. fst (snd x) < n)"
  "(\<forall>x \<in> set (disarm_all xs ts). fst (snd x) < n) = (\<forall>x \<in> set ts. fst (snd x) < n)"
  using ball_disarm [of t ts "\<lambda>q. q < n"] ball_disarm_all [of xs ts "\<lambda>q. q < n"]
  by simp_all

lemma wf_store_controller:
  assumes "wf_store c"
  shows "wf_store (pause c)" "wf_store (resume c)" "wf_store (cancel c)" "wf_store (cleanup c)"
    "wf_store (elapse d c)" "wf_store (fire t c)"
  using assms
  by (simp_all add: wf_store_def call_defs Let_def)

lemma wf_store_cong:
  assumes "promises c' = promises c" "pauseResolvers c' = pauseResolvers c"
    "timeouts c' = timeouts c"
  shows "wf_store c' = wf_store c"
  using assms by (simp add: wf_store_def)

lemma wf_store_settle:
  assumes "wf_store w"
  shows "wf_store (settle r w)"
proof -
  have "wf_store (settle r w) = wf_store (cleanup w)"
    by (rule wf_store_cong) (simp_all add: settle_def)
  then show ?thesis using wf_store_controller(4) [OF assms] by simp
qed

lemma wf_store_admit:
  assumes "wf_store w"
  shows "wf_store (admit w)"
  using assms
proof (induction w rule: admit.induct)
  case (1 w)
  have s: "wf_store (submit w)"
    using "1.prems" wf_store_cong [of "submit w" w] by (simp add: submit_def)
  have m: "wf_store (v\<lparr>mainPromise := x\<rparr>) = wf_store v" for v :: scheduler and x
    by (rule wf_store_cong) simp_all
  show ?case
  proof (cases "length (tasks w) < length (chunkPromises w) \<and> \<not> cancelled w \<and>
                \<not> concurrency w \<le> length (executing (submit w))")
    case True
    then have "wf_store (admit (submit w))"
      using "1.IH" [of "()"] s by (simp add: checkCancelled_def)
    then show ?thesis
      using True by (subst admit.simps) (simp add: checkCancelled_def)
  next
    case False
    then show ?thesis
      using "1.prems" s wf_store_settle [OF "1.prems"]
      by (subst admit.simps) (auto simp: checkCancelled_def await_all_def m)
  qed
qed

lemma wf_store_main_continue:
  assumes "wf_store w"
  shows "wf_store (main_continue w)"
  using assms
  by (auto simp: main_continue_def checkCancelled_def
           split: main_pc.splits option.splits sum.splits
           intro!: wf_store_admit wf_store_settle)

lemma wf_store_step:
  assumes "wf_store w"
  shows "wf_store (step e w)"
proof (cases e)
  case (SourceSettles j r)
  have "wf_store (w\<lparr>chunkPromises := x\<rparr>) = wf_store w" for x
    by (rule wf_store_cong) simp_all
  then show ?thesis using assms SourceSettles by simp
next
  case (Continue j)
  then show ?thesis using wf_store_extends [OF assms extends_continue] by simp
next
  case (ProcessorFulfils j t)
  then show ?thesis
    using assms wf_store_extends [OF assms extends_fn_rest] by (simp split: pc.splits)
next
  case (ProcessorRejects j x)
  then show ?thesis
    using assms wf_store_extends [OF assms extends_backoff] by (simp split: pc.splits)
next
  case (TimerFires t)
  then show ?thesis using wf_store_controller(6) [OF assms] by simp
next
  case (Elapse d)
  then show ?thesis using wf_store_controller(5) [OF assms] by simp
next
  case MainContinue
  then show ?thesis using wf_store_main_continue [OF assms] by simp
next
  case Pause
  then show ?thesis using wf_store_controller(1) [OF assms] by simp
next
  case Resume
  then show ?thesis using wf_store_controller(2) [OF assms] by simp
next
  case Cancel
  then show ?thesis using wf_store_controller(3) [OF assms] by simp
qed

lemma wf_store_exec: "wf_store w \<Longrightarrow> wf_store (exec evs w)"
  unfolding exec_def by (induction evs arbitrary: w) (simp_all add: wf_store_step)

lemma wf_store_processChunks: "wf_store (processChunks srcs c progress)"
  unfolding processChunks_def by (rule wf_store_admit) (simp add: wf_store_def)

lemma other_finish: "j \<noteq> i \<Longrightarrow> tasks (finish j r w) ! i = tasks w ! i"
  by (simp add: finish_def set_at_def Let_def split: main_pc.splits option.splits sum.splits)

lemma other_attempt: "j \<noteq> i \<Longrightarrow> tasks (attempt j w) ! i = tasks w ! i"
  by (simp add: attempt_def checkCancelled_def waitIfPaused_def new_Promise_def set_at_def
        other_finish)

lemma other_executeWithRetry: "j \<noteq> i \<Longrightarrow> tasks (executeWithRetry j w) ! i = tasks w ! i"
  by (simp add: executeWithRetry_def other_attempt)

lemma other_invoke: "j \<noteq> i \<Longrightarrow> tasks (invoke j w) ! i = tasks w ! i"
  by (simp add: invoke_def checkCancelled_def set_at_def other_finish)

lemma other_backoff: "j \<noteq> i \<Longrightarrow> tasks (backoff j w) ! i = tasks w ! i"
  by (simp add: backoff_def delay_def new_Promise_def setTimeout_def Let_def set_at_def)

lemma other_fn_rest: "j \<noteq> i \<Longrightarrow> tasks (fn_rest j t w) ! i = tasks w ! i"
  by (simp add: fn_rest_def Let_def other_finish other_backoff split: option.splits)

lemma other_continue: "j \<noteq> i \<Longrightarrow> tasks (continue j w) ! i = tasks w ! i"
  by (simp add: continue_def other_finish other_executeWithRetry other_invoke other_attempt
        split: pc.splits option.splits sum.splits)

lemma holding_extends:
  assumes "holding i p d w" "extends w w'" "length (tasks w') = length (tasks w)"
    "tasks w' ! i = tasks w ! i"
  shows "holding i p d w'"
proof -
  have n: "now w' = now w" using assms(2) by (simp add: extends_def)
  show ?thesis
    using assms(1,3,4) n waiting_extends [OF _ assms(2), of p d]
    by (auto simp: holding_def)
qed

lemma continue_held:
  assumes "i < length (tasks w)" "at (tasks w ! i) = AwaitDelay p" "waiting p d w"
  shows "continue i w = w"
  using assms by (simp add: continue_def settled_def waiting_def)

lemma holding_fire:
  assumes "holding i p d w"
  shows "holding i p d (fire t w)"
proof (cases "d \<le> now w")
  case True
  then show ?thesis by (simp add: holding_def fire_eq)
next
  case False
  then have h: "i < length (tasks w)" "at (tasks w ! i) = AwaitDelay p" "waiting p d w"
    using assms by (simp_all add: holding_def)
  show ?thesis
  proof (cases "t < length (timeouts w) \<and> snd (snd (timeouts w ! t)) \<and> fst (timeouts w ! t) \<le> now w")
    case no: False
    then have "fire t w = w" by (auto simp: fire_eq)
    then show ?thesis using assms by simp
  next
    case yes: True
    let ?q = "fst (snd (timeouts w ! t))"
    have mem: "timeouts w ! t \<in> set (timeouts w)" using yes by simp
    have "?q \<noteq> p"
    proof
      assume "?q = p"
      then have "fst (timeouts w ! t) = d"
        using h(3) mem yes unfolding waiting_def by blast
      then show False using yes False by simp
    qed
    have sub: "set (disarm t (timeouts w)) \<subseteq>
        insert (fst (timeouts w ! t), ?q, False) (set (timeouts w))"
      by (auto simp: disarm_def dest: set_update_subset_insert [THEN subsetD])
    have "waiting p d (fire t w)"
      unfolding waiting_def
    proof (intro conjI ballI impI)
      show "p < length (promises (fire t w))" using h(3) yes by (simp add: fire_eq waiting_def)
      show "\<not> promises (fire t w) ! p"
        using h(3) yes \<open>?q \<noteq> p\<close> by (simp add: fire_eq waiting_def)
      show "p \<notin> set (pauseResolvers (fire t w))"
        using h(3) yes by (simp add: fire_eq waiting_def)
    next
      fix x assume x: "x \<in> set (timeouts (fire t w))" "fst (snd x) = p \<and> snd (snd x)"
      then have "x \<in> set (disarm t (timeouts w))" using yes by (simp add: fire_eq)
      then have "x \<in> set (timeouts w)" using sub x(2) by auto
      then show "fst x = d" using h(3) x(2) unfolding waiting_def by blast
    qed
    then show ?thesis
      using h(1,2) by (simp add: holding_def fire_eq)
  qed
qed

lemma holding_step:
  assumes "holding i p d w" "quiet e"
  shows "holding i p d (step e w)"
proof (cases e)
  case (SourceSettles j r)
  have "extends w (w\<lparr>chunkPromises := x\<rparr>)" for x
    by (rule extends_same) simp_all
  then have "holding i p d (w\<lparr>chunkPromises := x\<rparr>)" for x
    using holding_extends [OF assms(1), of "w\<lparr>chunkPromises := x\<rparr>"] by simp
  then show ?thesis using assms(1) SourceSettles by simp
next
  case (Continue j)
  show ?thesis
  proof (cases "j = i \<and> \<not> d \<le> now w")
    case True
    then have "continue i w = w"
      using assms(1) continue_held [of i w p d] by (simp add: holding_def)
    then show ?thesis using assms(1) Continue True by simp
  next
    case False
    then consider "d \<le> now w" | "j \<noteq> i" by blast
    then show ?thesis
    proof cases
      case 1
      have "now (continue j w) = now w" using extends_continue [of w j] by (simp add: extends_def)
      then show ?thesis using 1 Continue by (simp add: holding_def)
    next
      case 2
      show ?thesis
        using Continue holding_extends [OF assms(1) extends_continue, of j] other_continue [OF 2]
        by simp
    qed
  qed
next
  case (ProcessorFulfils j t)
  show ?thesis
  proof (cases "j < length (tasks w) \<and> (\<exists>s. at (tasks w ! j) = AwaitProcessor s)")
    case False
    then have "step e w = w" using ProcessorFulfils by (auto split: pc.splits)
    then show ?thesis using assms(1) by simp
  next
    case True
    then have s: "step e w = fn_rest j t w" using ProcessorFulfils by auto
    show ?thesis
    proof (cases "d \<le> now w")
      case 1: True
      have "now (fn_rest j t w) = now w" using extends_fn_rest [of w j t] by (simp add: extends_def)
      then show ?thesis using 1 s by (simp add: holding_def)
    next
      case 2: False
      then have "j \<noteq> i" using assms(1) True by (auto simp: holding_def)
      then show ?thesis
        using s holding_extends [OF assms(1) extends_fn_rest, of j t] other_fn_rest [of j i t w]
        by simp
    qed
  qed
next
  case (ProcessorRejects j x)
  show ?thesis
  proof (cases "j < length (tasks w) \<and> (\<exists>s. at (tasks w ! j) = AwaitProcessor s)")
    case False
    then have "step e w = w" using ProcessorRejects by (auto split: pc.splits)
    then show ?thesis using assms(1) by simp
  next
    case True
    then have s: "step e w = backoff j w" using ProcessorRejects by auto
    show ?thesis
    proof (cases "d \<le> now w")
      case 1: True
      have "now (backoff j w) = now w" by (simp add: stores_backoff)
      then show ?thesis using 1 s by (simp add: holding_def)
    next
      case 2: False
      then have "j \<noteq> i" using assms(1) True by (auto simp: holding_def)
      then show ?thesis
        using s holding_extends [OF assms(1) extends_backoff, of j] other_backoff [of j i w]
        by simp
    qed
  qed
next
  case (TimerFires t)
  then show ?thesis using holding_fire [OF assms(1)] by simp
next
  case (Elapse n)
  then show ?thesis
    using assms(1) by (auto simp: holding_def elapse_def waiting_def)
next
  case MainContinue
  then show ?thesis using assms(2) by simp
next
  case Pause
  then show ?thesis using assms(2) by simp
next
  case Resume
  then show ?thesis using assms(2) by simp
next
  case Cancel
  then show ?thesis using assms(2) by simp
qed

lemma holding_exec:
  assumes "holding i p d w" "list_all quiet evs"
  shows "holding i p d (exec evs w)"
  using assms unfolding exec_def
  by (induction evs arbitrary: w) (simp_all add: holding_step)

lemma backoff_holds:
  assumes "wf_store w" "i < length (tasks w)"
  shows "holding i (length (promises w)) (now w + retryDelay (retry (tasks w ! i))) (backoff i w)"
proof -
  let ?p = "length (promises w)"
  let ?d = "now w + retryDelay (retry (tasks w ! i))"
  have a: "at (tasks (backoff i w) ! i) = AwaitDelay ?p" "length (tasks (backoff i w)) = length (tasks w)"
    using assms(2)
    by (simp_all add: backoff_def delay_def new_Promise_def setTimeout_def Let_def set_at_def)
  have old: "\<forall>x \<in> set (timeouts w). fst (snd x) \<noteq> ?p" "?p \<notin> set (pauseResolvers w)"
    using assms(1) by (auto simp: wf_store_def)
  have "waiting ?p ?d (backoff i w)"
    using old by (auto simp: waiting_def stores_backoff nth_append)
  then show ?thesis
    using a assms(2) by (simp add: holding_def)
qed






section \<open>The progress counter\<close>

lemma filter_update_count:
  "i < length xs \<Longrightarrow>
   length (filter P (xs[i := y])) + (if P (xs ! i) then 1 else 0)
     = length (filter P xs) + (if P y then 1 else 0)"
proof (induction xs arbitrary: i)
  case Nil
  then show ?case by simp
next
  case (Cons x xs)
  show ?case
  proof (cases i)
    case 0
    then show ?thesis by simp
  next
    case (Suc k)
    then have "k < length xs" using Cons.prems by simp
    then show ?thesis using Cons.IH [of k] Suc by simp
  qed
qed

lemma filter_update_same:
  assumes "i < length xs" "P y = P (xs ! i)"
  shows "length (filter P (xs[i := y])) = length (filter P xs)"
  using filter_update_count [OF assms(1), of P y] assms(2) by simp

lemma filter_update_new:
  assumes "i < length xs" "P y" "\<not> P (xs ! i)"
  shows "length (filter P (xs[i := y])) = Suc (length (filter P xs))"
  using filter_update_count [OF assms(1), of P y] assms(2,3) by simp

lemma tallied_cong:
  assumes "completed w' = completed w" "tasks w' = tasks w"
    "\<And>i. count_list (trace w') (Counted i) = count_list (trace w) (Counted i)"
    "length (chunkPromises w') = length (chunkPromises w)"
  shows "tallied w' = tallied w"
  using assms by (simp add: tallied_def)

lemma tallied_set_at:
  assumes "tallied w" "i < length (tasks w)" "at (tasks w ! i) \<noteq> Fulfilled" "p \<noteq> Fulfilled"
  shows "tallied (set_at i p w)"
proof -
  have "length (filter (\<lambda>t. at t = Fulfilled) ((tasks w)[i := (tasks w ! i)\<lparr>at := p\<rparr>]))
        = length (filter (\<lambda>t. at t = Fulfilled) (tasks w))"
    by (rule filter_update_same) (use assms in simp_all)
  then show ?thesis
    using assms by (auto simp: tallied_def set_at_def nth_list_update)
qed

lemma tallied_finish_rejected:
  assumes "tallied w" "i < length (tasks w)" "at (tasks w ! i) \<noteq> Fulfilled"
  shows "tallied (finish i (Inl e) w)"
proof -
  have "tallied (finish i (Inl e) w) = tallied (set_at i (Rejected e) w)"
    by (rule tallied_cong)
       (simp_all add: finish_def set_at_def Let_def split: main_pc.splits option.splits)
  then show ?thesis
    using tallied_set_at [OF assms, of "Rejected e"] by simp
qed

lemma tallied_attempt:
  assumes "tallied w" "i < length (tasks w)" "at (tasks w ! i) \<noteq> Fulfilled"
  shows "tallied (attempt i w)"
proof (cases "cancelled w")
  case True
  then have "attempt i w = finish i (Inl TaskCancelled) w"
    by (simp add: attempt_def checkCancelled_def)
  then show ?thesis using tallied_finish_rejected [OF assms] by simp
next
  case False
  let ?p = "if paused w then Some (length (promises w)) else None"
  have "tallied (attempt i w) = tallied (set_at i (AwaitPaused ?p) w)"
    using False
    by (intro tallied_cong)
       (simp_all add: attempt_def checkCancelled_def waitIfPaused_def new_Promise_def set_at_def)
  then show ?thesis
    using tallied_set_at [OF assms, of "AwaitPaused ?p"] by simp
qed

lemma tallied_retry:
  assumes "tallied w" "i < length (tasks w)"
  shows "tallied (w\<lparr>tasks := (tasks w)[i := (tasks w ! i)\<lparr>retry := n\<rparr>]\<rparr>)"
proof -
  have "length (filter (\<lambda>t. at t = Fulfilled) ((tasks w)[i := (tasks w ! i)\<lparr>retry := n\<rparr>]))
        = length (filter (\<lambda>t. at t = Fulfilled) (tasks w))"
    by (rule filter_update_same) (use assms in simp_all)
  then show ?thesis
    using assms by (auto simp: tallied_def nth_list_update)
qed

lemma tallied_executeWithRetry:
  assumes "tallied w" "i < length (tasks w)" "at (tasks w ! i) \<noteq> Fulfilled"
  shows "tallied (executeWithRetry i w)"
  unfolding executeWithRetry_def
  using assms by (intro tallied_attempt tallied_retry) simp_all

lemma tallied_invoke:
  assumes "tallied w" "i < length (tasks w)" "at (tasks w ! i) \<noteq> Fulfilled"
  shows "tallied (invoke i w)"
proof (cases "cancelled w")
  case True
  then have "invoke i w = finish i (Inl TaskCancelled) w"
    by (simp add: invoke_def checkCancelled_def)
  then show ?thesis using tallied_finish_rejected [OF assms] by simp
next
  case False
  have "tallied (invoke i w) = tallied (set_at i (AwaitProcessor (signal w)) w)"
    using False
    by (intro tallied_cong) (simp_all add: invoke_def checkCancelled_def set_at_def)
  then show ?thesis
    using tallied_set_at [OF assms, of "AwaitProcessor (signal w)"] by simp
qed

lemma tallied_backoff:
  assumes "tallied w" "i < length (tasks w)" "at (tasks w ! i) \<noteq> Fulfilled"
  shows "tallied (backoff i w)"
proof -
  let ?w1 = "w\<lparr>tasks := (tasks w)[i := (tasks w ! i)\<lparr>retry := retry (tasks w ! i) + 1\<rparr>]\<rparr>"
  have 1: "tallied ?w1" by (rule tallied_retry [OF assms(1,2)])
  have "tallied (backoff i w) = tallied (set_at i (AwaitDelay (length (promises w))) ?w1)"
    by (intro tallied_cong)
       (simp_all add: backoff_def delay_def new_Promise_def setTimeout_def Let_def set_at_def)
  then show ?thesis
    using tallied_set_at [OF 1, of i "AwaitDelay (length (promises w))"] assms(2,3) by simp
qed

lemma tallied_counted:
  assumes that: "\<And>j. count_list extra (Counted j) = 0"
    and "tallied w" "i < length (tasks w)" "at (tasks w ! i) \<noteq> Fulfilled"
  shows "tallied (finish i (Inr ())
            (w\<lparr>completed := completed w + 1, trace := trace w @ [Counted i] @ extra\<rparr>))"
proof -
  let ?ts = "(tasks w)[i := (tasks w ! i)\<lparr>at := Fulfilled\<rparr>]"
  let ?w2 = "w\<lparr>completed := completed w + 1, trace := trace w @ [Counted i] @ extra,
               tasks := ?ts\<rparr>"
  have n: "length (filter (\<lambda>t. at t = Fulfilled) ?ts)
        = Suc (length (filter (\<lambda>t. at t = Fulfilled) (tasks w)))"
    by (rule filter_update_new) (use assms in simp_all)
  have c: "count_list (trace w) (Counted i) = 0"
    using assms by (simp add: tallied_def)
  have "tallied ?w2"
    using assms n c that by (auto simp: tallied_def nth_list_update)
  moreover have "tallied (finish i (Inr ())
            (w\<lparr>completed := completed w + 1, trace := trace w @ [Counted i] @ extra\<rparr>))
        = tallied ?w2"
    by (rule tallied_cong)
       (simp_all add: finish_def set_at_def Let_def split: main_pc.splits option.splits)
  ultimately show ?thesis by simp
qed

lemma tallied_fn_rest:
  assumes "tallied w" "i < length (tasks w)" "at (tasks w ! i) \<noteq> Fulfilled"
    "onProgress w \<longrightarrow> t = None"
  shows "tallied (fn_rest i t w)"
proof (cases "onProgress w")
  case True
  then have "fn_rest i t w = finish i (Inr ())
      (w\<lparr>completed := completed w + 1,
         trace := trace w @ [Counted i] @ [Progress (completed w + 1) (length (chunkPromises w))]\<rparr>)"
    using assms(4) by (simp add: fn_rest_def Let_def)
  then show ?thesis
    using tallied_counted [OF _ assms(1,2,3),
        of "[Progress (completed w + 1) (length (chunkPromises w))]"]
    by simp
next
  case False
  then have "fn_rest i t w = finish i (Inr ())
      (w\<lparr>completed := completed w + 1, trace := trace w @ [Counted i] @ []\<rparr>)"
    by (simp add: fn_rest_def Let_def)
  then show ?thesis
    using tallied_counted [OF _ assms(1,2,3), of "[]"] by simp
qed

lemma tallied_continue:
  assumes "tallied w"
  shows "tallied (continue i w)"
  using assms
  by (auto simp: continue_def split: pc.splits option.splits sum.splits
           intro!: tallied_finish_rejected tallied_executeWithRetry tallied_invoke
                   tallied_attempt)

lemma tallied_controller [simp]:
  "tallied (cleanup w) = tallied w" "tallied (pause w) = tallied w"
  "tallied (resume w) = tallied w" "tallied (cancel w) = tallied w"
  "tallied (fire t w) = tallied w" "tallied (elapse d w) = tallied w"
  by (rule tallied_cong; simp add: call_defs Let_def)+

lemma tallied_settle [simp]: "tallied (settle r w) = tallied w"
  by (rule tallied_cong) (simp_all add: settle_def call_defs)

lemma tallied_submit:
  assumes "tallied w" "length (tasks w) < length (chunkPromises w)"
  shows "tallied (submit w)"
  using assms by (auto simp: tallied_def submit_def nth_append)

lemma tallied_admit:
  assumes "tallied w"
  shows "tallied (admit w)"
  using assms
proof (induction w rule: admit.induct)
  case (1 w)
  have m: "tallied (v\<lparr>mainPromise := x\<rparr>) = tallied v" for v x
    by (rule tallied_cong) simp_all
  show ?case
  proof (cases "length (tasks w) < length (chunkPromises w)")
    case False
    then show ?thesis
      using "1.prems" by (subst admit.simps) (simp add: await_all_def m)
  next
    case True
    have s: "tallied (submit w)" by (rule tallied_submit [OF "1.prems" True])
    show ?thesis
    proof (cases "\<not> cancelled w \<and> \<not> concurrency w \<le> length (executing (submit w))")
      case go: True
      then have "tallied (admit (submit w))"
        using "1.IH" [of "()"] s True by (simp add: checkCancelled_def)
      then show ?thesis
        using True go by (subst admit.simps) (simp add: checkCancelled_def)
    next
      case False
      then show ?thesis
        using "1.prems" s True
        by (subst admit.simps) (auto simp: checkCancelled_def m)
    qed
  qed
qed

lemma tallied_main_continue:
  assumes "tallied w"
  shows "tallied (main_continue w)"
  using assms
  by (auto simp: main_continue_def checkCancelled_def
           split: main_pc.splits option.splits sum.splits intro!: tallied_admit)

lemma tallied_step:
  assumes "tallied w" "onProgress w \<longrightarrow> polite e"
  shows "tallied (step e w)"
proof (cases e)
  case (SourceSettles j r)
  have "tallied (w\<lparr>chunkPromises := (chunkPromises w)[j := x]\<rparr>) = tallied w" for x
    by (rule tallied_cong) simp_all
  then show ?thesis using assms(1) SourceSettles by simp
next
  case (ProcessorFulfils j t)
  have "onProgress w \<longrightarrow> t = None"
    using assms(2) ProcessorFulfils by (cases t) simp_all
  then show ?thesis
    using assms(1) ProcessorFulfils by (auto split: pc.splits intro!: tallied_fn_rest)
next
  case (ProcessorRejects j x)
  then show ?thesis
    using assms(1) by (auto split: pc.splits intro!: tallied_backoff)
qed (use assms(1) in \<open>simp_all add: tallied_continue tallied_main_continue\<close>)

lemma onProgress_admit [simp]: "onProgress (admit v) = onProgress v"
  by (induction v rule: admit.induct)
     (subst admit.simps,
      simp add: checkCancelled_def await_all_def submit_def settle_def call_defs)

lemma onProgress_step [simp]: "onProgress (step e w) = onProgress w"
proof -
  have f: "onProgress (finish i r v) = onProgress v" for i r v
    by (simp add: finish_def set_at_def Let_def split: main_pc.splits option.splits sum.splits)
  have a: "onProgress (attempt i v) = onProgress v" for i v
    by (simp add: attempt_def checkCancelled_def waitIfPaused_def new_Promise_def set_at_def f)
  have x: "onProgress (executeWithRetry i v) = onProgress v" for i v
    by (simp add: executeWithRetry_def a)
  have n: "onProgress (invoke i v) = onProgress v" for i v
    by (simp add: invoke_def checkCancelled_def set_at_def f)
  have b: "onProgress (backoff i v) = onProgress v" for i v
    by (simp add: backoff_def delay_def new_Promise_def setTimeout_def Let_def set_at_def)
  have r: "onProgress (fn_rest i t v) = onProgress v" for i t v
    by (simp add: fn_rest_def Let_def f b split: option.splits)
  have c: "onProgress (continue i v) = onProgress v" for i v
    by (simp add: continue_def f a x n split: pc.splits option.splits sum.splits)
  have s: "onProgress (settle q v) = onProgress v" for q v
    by (simp add: settle_def call_defs)
  have d: "onProgress (admit v) = onProgress v" for v
    by simp
  have m: "onProgress (main_continue v) = onProgress v" for v
    by (simp add: main_continue_def checkCancelled_def s d
          split: main_pc.splits option.splits sum.splits)
  show ?thesis
    by (cases e) (simp_all add: c r b m call_defs Let_def split: pc.splits)
qed

lemma tallied_exec:
  assumes "tallied w" "onProgress w \<longrightarrow> list_all polite evs"
  shows "tallied (exec evs w)"
  using assms unfolding exec_def
proof (induction evs arbitrary: w)
  case Nil
  then show ?case by simp
next
  case (Cons e evs)
  have "tallied (step e w)"
    using Cons.prems by (intro tallied_step) simp_all
  moreover have "onProgress (step e w) \<longrightarrow> list_all polite evs"
    using Cons.prems(2) by simp
  ultimately show ?case using Cons.IH [of "step e w"] by simp
qed

lemma tallied_processChunks: "tallied (processChunks srcs c progress)"
  unfolding processChunks_def by (rule tallied_admit) (simp add: tallied_def)

lemma length_filter_le_length: "length (filter P xs) \<le> length xs"
  by simp

text \<open>When no progress callback is given, or the callback never throws, the counter
  is the number of fulfilled chunks, never above the number of sources, and every chunk
  is counted at most once, when its task fulfils.\<close>

lemma progress_tally:
  assumes "progress \<longrightarrow> list_all polite evs"
  shows "completed (exec evs (processChunks srcs c progress))
           = length (filter (\<lambda>t. at t = Fulfilled) (tasks (exec evs (processChunks srcs c progress))))"
    and "completed (exec evs (processChunks srcs c progress))
           \<le> length (chunkPromises (exec evs (processChunks srcs c progress)))"
    and "count_list (trace (exec evs (processChunks srcs c progress))) (Counted i) \<le> 1"
proof -
  let ?w = "exec evs (processChunks srcs c progress)"
  have p: "onProgress (processChunks srcs c progress) = progress"
    by (simp add: processChunks_def)
  have t: "tallied ?w"
    using assms by (intro tallied_exec tallied_processChunks) (simp add: p)
  show "completed ?w = length (filter (\<lambda>t. at t = Fulfilled) (tasks ?w))"
    using t by (simp add: tallied_def)
  then have "completed ?w \<le> length (tasks ?w)" by simp
  moreover have "length (tasks ?w) \<le> length (chunkPromises ?w)"
    using t by (simp add: tallied_def)
  ultimately show "completed ?w \<le> length (chunkPromises ?w)"
    by (rule le_trans)
  show "count_list (trace ?w) (Counted i) \<le> 1"
    using t by (simp add: tallied_def)
qed

text \<open>
  Claim C2, where the code departs from it. One source, \<open>onProgress\<close> given and
  throwing at its first call: the processor fulfils, \<open>completed\<close> becomes \<open>1\<close>,
  \<open>onProgress(1, 1)\<close> throws inside the function that \<open>executeWithRetry\<close> retries, so
  after the delay the processor is called again for the same chunk, \<open>completed\<close>
  becomes \<open>2\<close> and \<open>onProgress(2, 1)\<close> is called. The run fulfils with
  \<open>completed = 2\<close> and \<open>total = 1\<close>, the chunk counted twice.
\<close>

theorem progress_counted_twice:
  "completed (exec [SourceSettles 0 (Inr (chunk_at 0 ''h0'')), Continue 0, Continue 0,
                    ProcessorFulfils 0 (Some (Thrown 1)), TimerFires 0, Continue 0, Continue 0,
                    ProcessorFulfils 0 None, MainContinue]
                (processChunks [None] 6 True)) = 2 \<and>
   length (chunkPromises (exec [SourceSettles 0 (Inr (chunk_at 0 ''h0'')), Continue 0, Continue 0,
                    ProcessorFulfils 0 (Some (Thrown 1)), TimerFires 0, Continue 0, Continue 0,
                    ProcessorFulfils 0 None, MainContinue]
                (processChunks [None] 6 True))) = 1 \<and>
   trace (exec [SourceSettles 0 (Inr (chunk_at 0 ''h0'')), Continue 0, Continue 0,
                ProcessorFulfils 0 (Some (Thrown 1)), TimerFires 0, Continue 0, Continue 0,
                ProcessorFulfils 0 None, MainContinue]
            (processChunks [None] 6 True))
     = [Submitted 0, Invoked 0 0, Counted 0, Progress 1 1, Slept 0 0,
        Invoked 0 0, Counted 0, Progress 2 1] \<and>
   mainPromise (exec [SourceSettles 0 (Inr (chunk_at 0 ''h0'')), Continue 0, Continue 0,
                      ProcessorFulfils 0 (Some (Thrown 1)), TimerFires 0, Continue 0, Continue 0,
                      ProcessorFulfils 0 None, MainContinue]
                  (processChunks [None] 6 True)) = Settled (Inr ())"
  by code_simp

section \<open>The delays are slept\<close>

lemma on_time_start: "on_time 0 (exec (timed_run ch 0) (processChunks [None] c progress))"
proof -
  have "processChunks [None] c progress =
        \<lparr>now = 0, promises = [], signals = [False], timeouts = [],
            paused = False, cancelled = False, pauseResolvers = [], timers = [],
            abortController = 0,
            chunkPromises = [None], concurrency = c, onProgress = progress,
            executing = [0], completed = 0, tasks = [\<lparr>at = AwaitChunk, retry = 0\<rparr>],
            mainPromise = (if c \<le> 1 then AwaitRace None else AwaitAll None),
            trace = [Submitted 0]\<rparr>"
    unfolding processChunks_def
    by (subst admit.simps, simp add: checkCancelled_def submit_def,
        subst admit.simps, simp add: await_all_def)
  then show ?thesis
    by (simp add: on_time_def retrying_def exec_def continue_def source_def executeWithRetry_def
          attempt_def invoke_def checkCancelled_def waitIfPaused_def set_at_def)
qed

lemma on_time_round:
  assumes "on_time k w"
  shows "on_time (Suc k)
           (exec [ProcessorRejects 0 e, Elapse (retryDelay k), TimerFires k, Continue 0, Continue 0] w)"
proof -
  obtain s where s: "at (tasks w ! 0) = AwaitProcessor s"
    using assms by (auto simp: on_time_def retrying_def)
  have l: "length (tasks w) = 1" "retry (tasks w ! 0) = k" "\<not> cancelled w" "\<not> paused w"
    "length (timeouts w) = k" "now w = sum_list (map retryDelay [0..<k])"
    using assms by (simp_all add: on_time_def retrying_def)
  show ?thesis
    using s l
    by (simp add: on_time_def retrying_def exec_def backoff_def delay_def new_Promise_def
          setTimeout_def Let_def set_at_def elapse_def fire_def clearTimeout_def resolve_def
          settled_def continue_def attempt_def invoke_def checkCancelled_def waitIfPaused_def
          nth_append)
qed

lemma on_time_timed_run:
  "on_time k (exec (timed_run ch k) (processChunks [None] c progress))"
proof (induction k)
  case 0
  show ?case by (rule on_time_start)
next
  case (Suc k)
  show ?case
    using on_time_round [OF Suc]
    by (simp only: timed_run.simps exec_append)
qed

lemma backoff_sleeps:
  assumes "wf_store w" "i < length (tasks w)" "list_all quiet evs"
  shows "timeouts (backoff i w)
           = timeouts w @ [(now w + retryDelay (retry (tasks w ! i)), length (promises w), True)]"
    and "at (tasks (backoff i w) ! i) = AwaitDelay (length (promises w))"
    and "\<not> settled (backoff i w) (length (promises w))"
    and "retry (tasks (backoff i w) ! i) = retry (tasks w ! i) + 1"
    and "at (tasks (exec evs (backoff i w)) ! i) = AwaitDelay (length (promises w)) \<and>
         \<not> settled (exec evs (backoff i w)) (length (promises w))
         \<or> now w + retryDelay (retry (tasks w ! i)) \<le> now (exec evs (backoff i w))"
proof -
  let ?p = "length (promises w)"
  let ?d = "now w + retryDelay (retry (tasks w ! i))"
  show "timeouts (backoff i w) = timeouts w @ [(?d, ?p, True)]"
    by (rule stores_backoff)
  show "at (tasks (backoff i w) ! i) = AwaitDelay ?p"
    and "retry (tasks (backoff i w) ! i) = retry (tasks w ! i) + 1"
    using assms(2)
    by (simp_all add: backoff_def delay_def new_Promise_def setTimeout_def Let_def set_at_def)
  show "\<not> settled (backoff i w) ?p"
    by (simp add: settled_def stores_backoff nth_append)
  have "holding i ?p ?d (exec evs (backoff i w))"
    by (rule holding_exec [OF backoff_holds [OF assms(1,2)] assms(3)])
  then show "at (tasks (exec evs (backoff i w)) ! i) = AwaitDelay ?p \<and>
         \<not> settled (exec evs (backoff i w)) ?p
         \<or> ?d \<le> now (exec evs (backoff i w))"
    by (auto simp: holding_def waiting_def settled_def)
qed

text \<open>
  Claim C3. The delay that follows the failure of attempt \<open>n\<close> (counted from \<open>0\<close>)
  is \<open>min (1000 * n) 5000\<close>: the first eight are
  \<open>0, 1000, 2000, 3000, 4000, 5000, 5000, 5000\<close>, and from the sixth on it is \<open>5000\<close>.
  For a processor that fails on every attempt, whatever the number \<open>k\<close> of attempts so
  far, the delays asked for are those of attempts \<open>0\<close> to \<open>k - 1\<close>, in this order; in
  any run at all, the delays a task has asked for are those of attempts \<open>0\<close> to
  \<open>retry - 1\<close>. And the delays are slept. When an attempt fails in any state a run can
  reach, by a rejection of the processor or by a throw of \<open>onProgress\<close>, \<open>retry\<close> goes
  up by one, a timeout is set that is due the delay of that attempt after the present
  time, and the task waits on a promise nobody has resolved; as long as nobody calls
  \<open>pause\<close>, \<open>resume\<close> or \<open>cancel\<close> and \<open>mainPromise\<close> does not go on, the task is
  still waiting there until the clock has advanced by the whole delay. With the clock
  advanced in each round by just the delay of the round, the always-failing run comes
  back to its processor every time, at the time that is the sum of the delays so far.
\<close>

theorem retry_delays:
  "retryDelay n = min (1000 * n) 5000 \<and>
   map retryDelay [0..<8] = [0, 1000, 2000, 3000, 4000, 5000, 5000, 5000] \<and>
   (5 \<le> n \<longrightarrow> retryDelay n = 5000) \<and>
   delays_of 0 (trace (exec (failing_run ch k) (processChunks [None] c progress)))
     = map retryDelay [0..<k] \<and>
   (i < length (tasks (exec evs (processChunks srcs c progress))) \<longrightarrow>
      delays_of i (trace (exec evs (processChunks srcs c progress)))
        = map retryDelay [0..<retry (tasks (exec evs (processChunks srcs c progress)) ! i)]) \<and>
   retrying k (exec (timed_run ch k) (processChunks [None] c progress)) \<and>
   now (exec (timed_run ch k) (processChunks [None] c progress))
     = sum_list (map retryDelay [0..<k]) \<and>
   delays_of 0 (trace (exec (timed_run ch k) (processChunks [None] c progress)))
     = map retryDelay [0..<k] \<and>
   (i < length (tasks (exec evs (processChunks srcs c progress))) \<and>
    at (tasks (exec evs (processChunks srcs c progress)) ! i) = AwaitProcessor s \<and>
    list_all quiet evs' \<longrightarrow>
      timeouts (step (ProcessorRejects i e) (exec evs (processChunks srcs c progress)))
        = timeouts (exec evs (processChunks srcs c progress)) @
          [(now (exec evs (processChunks srcs c progress))
              + retryDelay (retry (tasks (exec evs (processChunks srcs c progress)) ! i)),
            length (promises (exec evs (processChunks srcs c progress))), True)] \<and>
      at (tasks (step (ProcessorRejects i e) (exec evs (processChunks srcs c progress))) ! i)
        = AwaitDelay (length (promises (exec evs (processChunks srcs c progress)))) \<and>
      \<not> settled (step (ProcessorRejects i e) (exec evs (processChunks srcs c progress)))
          (length (promises (exec evs (processChunks srcs c progress)))) \<and>
      retry (tasks (step (ProcessorRejects i e) (exec evs (processChunks srcs c progress))) ! i)
        = retry (tasks (exec evs (processChunks srcs c progress)) ! i) + 1 \<and>
      (at (tasks (exec evs' (step (ProcessorRejects i e) (exec evs (processChunks srcs c progress)))) ! i)
         = AwaitDelay (length (promises (exec evs (processChunks srcs c progress)))) \<and>
       \<not> settled (exec evs' (step (ProcessorRejects i e) (exec evs (processChunks srcs c progress))))
           (length (promises (exec evs (processChunks srcs c progress))))
       \<or> now (exec evs (processChunks srcs c progress))
           + retryDelay (retry (tasks (exec evs (processChunks srcs c progress)) ! i))
         \<le> now (exec evs' (step (ProcessorRejects i e) (exec evs (processChunks srcs c progress)))))) \<and>
   (i < length (tasks (exec evs (processChunks srcs c progress))) \<and>
    at (tasks (exec evs (processChunks srcs c progress)) ! i) = AwaitProcessor s \<and>
    onProgress (exec evs (processChunks srcs c progress)) \<and>
    list_all quiet evs' \<longrightarrow>
      timeouts (step (ProcessorFulfils i (Some x)) (exec evs (processChunks srcs c progress)))
        = timeouts (exec evs (processChunks srcs c progress)) @
          [(now (exec evs (processChunks srcs c progress))
              + retryDelay (retry (tasks (exec evs (processChunks srcs c progress)) ! i)),
            length (promises (exec evs (processChunks srcs c progress))), True)] \<and>
      at (tasks (step (ProcessorFulfils i (Some x)) (exec evs (processChunks srcs c progress))) ! i)
        = AwaitDelay (length (promises (exec evs (processChunks srcs c progress)))) \<and>
      \<not> settled (step (ProcessorFulfils i (Some x)) (exec evs (processChunks srcs c progress)))
          (length (promises (exec evs (processChunks srcs c progress)))) \<and>
      retry (tasks (step (ProcessorFulfils i (Some x)) (exec evs (processChunks srcs c progress))) ! i)
        = retry (tasks (exec evs (processChunks srcs c progress)) ! i) + 1 \<and>
      (at (tasks (exec evs' (step (ProcessorFulfils i (Some x)) (exec evs (processChunks srcs c progress)))) ! i)
         = AwaitDelay (length (promises (exec evs (processChunks srcs c progress)))) \<and>
       \<not> settled (exec evs' (step (ProcessorFulfils i (Some x)) (exec evs (processChunks srcs c progress))))
           (length (promises (exec evs (processChunks srcs c progress))))
       \<or> now (exec evs (processChunks srcs c progress))
           + retryDelay (retry (tasks (exec evs (processChunks srcs c progress)) ! i))
         \<le> now (exec evs' (step (ProcessorFulfils i (Some x)) (exec evs (processChunks srcs c progress))))))"
proof -
  let ?W = "exec evs (processChunks srcs c progress)"
  let ?p = "length (promises ?W)"
  let ?d = "now ?W + retryDelay (retry (tasks ?W ! i))"
  have 1: "map retryDelay [0..<8] = [0, 1000, 2000, 3000, 4000, 5000, 5000, 5000]"
    by (simp add: retryDelay_def upt_rec numeral_eq_Suc)
  have b: "backed_off (exec evs (processChunks srcs c progress))" for evs srcs
    by (intro backed_off_exec backed_off_processChunks)
  have r: "retrying k (exec (failing_run ch k) (processChunks [None] c progress))"
    by (rule retrying_failing_run)
  have 2: "delays_of 0 (trace (exec (failing_run ch k) (processChunks [None] c progress)))
     = map retryDelay [0..<k]"
    using b [of "failing_run ch k" "[None]"] r
    by (simp add: backed_off_def retrying_def)
  have 3: "i < length (tasks ?W) \<Longrightarrow>
      delays_of i (trace ?W) = map retryDelay [0..<retry (tasks ?W ! i)]"
    using b [of evs srcs] by (simp add: backed_off_def)
  have t: "on_time k (exec (timed_run ch k) (processChunks [None] c progress))"
    by (rule on_time_timed_run)
  then have 4: "retrying k (exec (timed_run ch k) (processChunks [None] c progress))"
    and 5: "now (exec (timed_run ch k) (processChunks [None] c progress))
              = sum_list (map retryDelay [0..<k])"
    by (simp_all add: on_time_def)
  have 6: "delays_of 0 (trace (exec (timed_run ch k) (processChunks [None] c progress)))
     = map retryDelay [0..<k]"
    using b [of "timed_run ch k" "[None]"] 4
    by (simp add: backed_off_def retrying_def)
  have wf: "wf_store ?W" by (intro wf_store_exec wf_store_processChunks)
  have 7: "timeouts (step (ProcessorRejects i e) ?W) = timeouts ?W @ [(?d, ?p, True)] \<and>
      at (tasks (step (ProcessorRejects i e) ?W) ! i) = AwaitDelay ?p \<and>
      \<not> settled (step (ProcessorRejects i e) ?W) ?p \<and>
      retry (tasks (step (ProcessorRejects i e) ?W) ! i) = retry (tasks ?W ! i) + 1 \<and>
      (at (tasks (exec evs' (step (ProcessorRejects i e) ?W)) ! i) = AwaitDelay ?p \<and>
       \<not> settled (exec evs' (step (ProcessorRejects i e) ?W)) ?p
       \<or> ?d \<le> now (exec evs' (step (ProcessorRejects i e) ?W)))"
    if h: "i < length (tasks ?W)" "at (tasks ?W ! i) = AwaitProcessor s" "list_all quiet evs'"
  proof -
    have st: "step (ProcessorRejects i e) ?W = backoff i ?W" using h(1,2) by simp
    show ?thesis
      unfolding st using backoff_sleeps [OF wf h(1,3)] by blast
  qed
  have 8: "timeouts (step (ProcessorFulfils i (Some x)) ?W) = timeouts ?W @ [(?d, ?p, True)] \<and>
      at (tasks (step (ProcessorFulfils i (Some x)) ?W) ! i) = AwaitDelay ?p \<and>
      \<not> settled (step (ProcessorFulfils i (Some x)) ?W) ?p \<and>
      retry (tasks (step (ProcessorFulfils i (Some x)) ?W) ! i) = retry (tasks ?W ! i) + 1 \<and>
      (at (tasks (exec evs' (step (ProcessorFulfils i (Some x)) ?W)) ! i) = AwaitDelay ?p \<and>
       \<not> settled (exec evs' (step (ProcessorFulfils i (Some x)) ?W)) ?p
       \<or> ?d \<le> now (exec evs' (step (ProcessorFulfils i (Some x)) ?W)))"
    if h: "i < length (tasks ?W)" "at (tasks ?W ! i) = AwaitProcessor s" "onProgress ?W"
      "list_all quiet evs'"
  proof -
    let ?W2 = "?W\<lparr>completed := completed ?W + 1,
                 trace := trace ?W @ [Counted i,
                   Progress (completed ?W + 1) (length (chunkPromises ?W))]\<rparr>"
    have st: "step (ProcessorFulfils i (Some x)) ?W = backoff i ?W2"
      using h(1,2,3) by (simp add: fn_rest_def Let_def)
    have wf2: "wf_store ?W2"
      using wf wf_store_cong [of ?W2 ?W] by simp
    have i2: "i < length (tasks ?W2)" using h(1) by simp
    have eq: "timeouts ?W2 = timeouts ?W" "now ?W2 = now ?W" "tasks ?W2 = tasks ?W"
      "promises ?W2 = promises ?W"
      by simp_all
    show ?thesis
      unfolding st using backoff_sleeps [OF wf2 i2 h(4)] unfolding eq by blast
  qed
  have 9: "retryDelay n = min (1000 * n) 5000" "5 \<le> n \<longrightarrow> retryDelay n = 5000"
    by (simp_all add: retryDelay_def)
  show ?thesis
    using 1 2 3 4 5 6 7 8 9 by blast
qed

theorem retry_delays_witness:
  "(5::nat) \<le> 7 \<and> retryDelay 7 = 5000 \<and>
   0 < length (tasks (exec (failing_run (chunk_at 0 ''h0'') 7) (processChunks [None] 1 False))) \<and>
   delays_of 0 (trace (exec (failing_run (chunk_at 0 ''h0'') 7) (processChunks [None] 1 False)))
     = [0, 1000, 2000, 3000, 4000, 5000, 5000] \<and>
   now (exec (timed_run (chunk_at 0 ''h0'') 7) (processChunks [None] 1 False)) = 20000 \<and>
   at (tasks (exec [SourceSettles 0 (Inr (chunk_at 0 ''h0'')), Continue 0, Continue 0,
                    ProcessorRejects 0 (Thrown 1), TimerFires 0, Continue 0, Continue 0]
                (processChunks [None] 1 False)) ! 0) = AwaitProcessor 0 \<and>
   list_all quiet [Elapse 999, TimerFires 1, Continue 0] \<and>
   now (exec [SourceSettles 0 (Inr (chunk_at 0 ''h0'')), Continue 0, Continue 0,
              ProcessorRejects 0 (Thrown 1), TimerFires 0, Continue 0, Continue 0]
          (processChunks [None] 1 False)) = 0 \<and>
   retryDelay (retry (tasks (exec [SourceSettles 0 (Inr (chunk_at 0 ''h0'')), Continue 0, Continue 0,
                    ProcessorRejects 0 (Thrown 1), TimerFires 0, Continue 0, Continue 0]
                (processChunks [None] 1 False)) ! 0)) = 1000 \<and>
   now (exec [Elapse 999, TimerFires 1, Continue 0]
          (step (ProcessorRejects 0 (Thrown 2))
             (exec [SourceSettles 0 (Inr (chunk_at 0 ''h0'')), Continue 0, Continue 0,
                    ProcessorRejects 0 (Thrown 1), TimerFires 0, Continue 0, Continue 0]
                (processChunks [None] 1 False)))) = 999 \<and>
   at (tasks (exec [Elapse 999, TimerFires 1, Continue 0]
          (step (ProcessorRejects 0 (Thrown 2))
             (exec [SourceSettles 0 (Inr (chunk_at 0 ''h0'')), Continue 0, Continue 0,
                    ProcessorRejects 0 (Thrown 1), TimerFires 0, Continue 0, Continue 0]
                (processChunks [None] 1 False)))) ! 0)
     = AwaitDelay (length (promises
         (exec [SourceSettles 0 (Inr (chunk_at 0 ''h0'')), Continue 0, Continue 0,
                ProcessorRejects 0 (Thrown 1), TimerFires 0, Continue 0, Continue 0]
            (processChunks [None] 1 False))))"
proof -
  let ?evs = "[SourceSettles 0 (Inr (chunk_at 0 ''h0'')), Continue 0, Continue 0,
               ProcessorRejects 0 (Thrown 1), TimerFires 0, Continue 0, Continue 0]"
  let ?W = "exec ?evs (processChunks [None] 1 False)"
  let ?evs' = "[Elapse 999, TimerFires 1, Continue 0]"
  let ?W' = "exec ?evs' (step (ProcessorRejects 0 (Thrown 2)) ?W)"
  have h1: "(5::nat) \<le> 7" by simp
  have h2: "0 < length (tasks (exec (failing_run (chunk_at 0 ''h0'') 7)
                                 (processChunks [None] 1 False)))"
    using retrying_failing_run [of 7 "chunk_at 0 ''h0''" 1 False] by (simp add: retrying_def)
  have e: "map retryDelay [0..<7] = [0, 1000, 2000, 3000, 4000, 5000, 5000]"
    by (simp add: retryDelay_def upt_rec numeral_eq_Suc)
  have sm: "sum_list (map retryDelay [0..<7]) = 20000"
    by (simp only: e) simp
  have A: "retryDelay 7 = 5000 \<and>
     delays_of 0 (trace (exec (failing_run (chunk_at 0 ''h0'') 7) (processChunks [None] 1 False)))
       = [0, 1000, 2000, 3000, 4000, 5000, 5000] \<and>
     now (exec (timed_run (chunk_at 0 ''h0'') 7) (processChunks [None] 1 False)) = 20000"
    using retry_delays [where n = 7 and ch = "chunk_at 0 ''h0''" and k = 7 and c = 1
        and progress = False and i = 0 and evs = "failing_run (chunk_at 0 ''h0'') 7"
        and srcs = "[None]"] h1 h2 e sm
    by simp
  have b: "0 < length (tasks ?W)" "at (tasks ?W ! 0) = AwaitProcessor 0" by code_simp+
  have q: "list_all quiet ?evs'" by simp
  have n: "now ?W = 0" "now ?W' = 999" "retryDelay (retry (tasks ?W ! 0)) = 1000"
    by code_simp+
  have lt: "\<not> now ?W + retryDelay (retry (tasks ?W ! 0)) \<le> now ?W'"
    by (simp only: n)
  have B: "at (tasks ?W' ! 0) = AwaitDelay (length (promises ?W))"
    using retry_delays [where i = 0 and evs = ?evs and srcs = "[None]" and c = 1
        and progress = False and s = 0 and evs' = ?evs' and e = "Thrown 2"] b q lt
    by blast
  show ?thesis
    using A B h1 h2 b q n by blast
qed

end
